theory Spec2Isabelle
  imports Main
begin

section \<open>Strings, white space and numbers of the script\<close>

text \<open>
  A string of the program is a sequence of code units. The model takes the code units
  below 256 (type \<^typ>\<open>char\<close>): every pattern of the source is written over ASCII, and
  the white space of a regular expression (\<^verbatim>\<open>\s\<close>) and of \<^verbatim>\<open>trim\<close> in that range is
  tab, line feed, vertical tab, form feed, carriage return, space and the no-break space
  (code 160). \<^verbatim>\<open>\d\<close> is an ASCII digit. A dot of a regular expression matches every code
  unit but a line terminator (line feed, carriage return).
\<close>

definition is_ws :: "char \<Rightarrow> bool" where
  "is_ws c = (of_char c \<in> {9, 10, 11, 12, 13, 32, 160 :: nat})"

definition is_digit :: "char \<Rightarrow> bool" where
  "is_digit c = (48 \<le> (of_char c :: nat) \<and> (of_char c :: nat) \<le> 57)"

definition is_line_terminator :: "char \<Rightarrow> bool" where
  "is_line_terminator c = (of_char c \<in> {10, 13 :: nat})"

text \<open>\<^verbatim>\<open>s.replace(/\s+/g, " ")\<close>: every maximal run of white space becomes one space.\<close>

function collapse_ws :: "string \<Rightarrow> string" where
  "collapse_ws [] = []"
| "collapse_ws (c # cs) =
     (if is_ws c then CHR '' '' # collapse_ws (dropWhile is_ws cs)
      else c # collapse_ws cs)"
  by pat_completeness auto
termination
  by (relation "measure length") (auto simp: length_dropWhile_le less_Suc_eq_le)

text \<open>\<^verbatim>\<open>s.trim()\<close>: the white space at both ends is removed.\<close>

definition trim :: "string \<Rightarrow> string" where
  "trim s = rev (dropWhile is_ws (rev (dropWhile is_ws s)))"

text \<open>The helper \<^verbatim>\<open>norm\<close> of the source: \<^verbatim>\<open>s.replace(/\s+/g, " ").trim()\<close>.\<close>

definition norm :: "string \<Rightarrow> string" where
  "norm s = trim (collapse_ws s)"

text \<open>
  \<^verbatim>\<open>normalizeParagraphs\<close>: map every paragraph to its normal form and keep the ones of
  positive length.
\<close>

definition normalizeParagraphs :: "string list \<Rightarrow> string list" where
  "normalizeParagraphs paragraphs = filter (\<lambda>p. length p > 0) (map norm paragraphs)"

text \<open>
  A number of the script is a double. The model is exact on the integers below \<open>2 ^ 53\<close>
  in size: there a double is the integer it stands for, its sum with 1 or with \<open>- 1\<close> is
  the sum of the integers, and it prints as the decimal numeral of the integer. The
  doubles of size \<open>2 ^ 53\<close> or more, the infinities among them, are the values of a type
  \<open>'b\<close> that the model leaves open; what the script does with them is given by three
  parameters, so that every statement holds whatever the rounding and the printing of
  these doubles are:
  \<^item> \<open>big_of i\<close> is the double for the integer \<open>i\<close> of size \<open>2 ^ 53\<close> or more, as
    \<^verbatim>\<open>parseInt\<close> and the arithmetic give it;
  \<^item> \<open>big_add b k\<close> is the sum of the double \<open>b\<close> and the integer \<open>k\<close> (1 or \<open>- 1\<close>), a
    number again;
  \<^item> \<open>big_to_string b\<close> is the text \<^verbatim>\<open>String(b)\<close>.
  Two numbers are the same value of the script exactly when they are equal in the
  model, but for \<^verbatim>\<open>NaN\<close>, which the comparison \<^verbatim>\<open>!==\<close> takes as different from itself.
  The two zeros of the script are the one number \<open>Small 0\<close>: the script compares them
  as equal, prints both as \<^verbatim>\<open>0\<close> and adds to both alike. \<open>Small i\<close> stands for a double
  when \<open>i\<close> is below \<open>2 ^ 53\<close> in size; the functions below give no other \<open>Small i\<close>
  (they build a number with \<open>number_of\<close>), and a statement on a path that is given
  speaks of the script where the path holds such numbers.
\<close>

datatype 'b number = NaN | Small int | Big 'b

record 'b doubles =
  big_of :: "int \<Rightarrow> 'b"
  big_add :: "'b \<Rightarrow> int \<Rightarrow> 'b number"
  big_to_string :: "'b \<Rightarrow> string"

text \<open>The number for an integer.\<close>

definition number_of :: "'b doubles \<Rightarrow> int \<Rightarrow> 'b number" where
  "number_of J i = (if \<bar>i\<bar> < 9007199254740992 then Small i else Big (big_of J i))"

text \<open>The integer that a run of decimal digits denotes.\<close>

definition digit_val :: "char \<Rightarrow> nat" where
  "digit_val c = of_char c - 48"

definition digits_value :: "string \<Rightarrow> nat" where
  "digits_value ds = foldl (\<lambda>a c. 10 * a + digit_val c) 0 ds"

definition digit_char :: "nat \<Rightarrow> char" where
  "digit_char k = ''0123456789'' ! k"

text \<open>
  The decimal numeral of a natural number; \<^verbatim>\<open>String(n)\<close> writes it for an integer below
  \<open>2 ^ 53\<close>.
\<close>

function nat_to_string :: "nat \<Rightarrow> string" where
  "nat_to_string n =
     (if n < 10 then [digit_char n] else nat_to_string (n div 10) @ [digit_char (n mod 10)])"
  by pat_completeness auto
termination
  by (relation "measure id") auto

text \<open>
  \<^verbatim>\<open>parseInt(s, 10)\<close>: leading white space is skipped, one sign is read, then the longest
  run of decimal digits; with no digit the result is \<^verbatim>\<open>NaN\<close>, and what follows the digits
  is ignored. The result is the number for the integer read.
\<close>

definition parseInt :: "'b doubles \<Rightarrow> string \<Rightarrow> 'b number" where
  "parseInt J s =
     (let t = dropWhile is_ws s;
          neg = (t \<noteq> [] \<and> hd t = CHR ''-'');
          u = (if t \<noteq> [] \<and> (hd t = CHR ''-'' \<or> hd t = CHR ''+'') then tl t else t);
          ds = takeWhile is_digit u
      in if ds = [] then NaN
         else if neg then number_of J (- int (digits_value ds))
         else number_of J (int (digits_value ds)))"

text \<open>
  \<^verbatim>\<open>x + k\<close> for \<open>k\<close> among 1 and \<open>- 1\<close> (\<^verbatim>\<open>x - 1\<close> is the sum with \<open>- 1\<close>): \<^verbatim>\<open>NaN\<close> stays
  \<^verbatim>\<open>NaN\<close>, and the sum of an integer below \<open>2 ^ 53\<close> in size is the number for the sum of
  the integers, which is \<open>2 ^ 53\<close> in size at most and so a double.
\<close>

fun num_add :: "'b doubles \<Rightarrow> 'b number \<Rightarrow> int \<Rightarrow> 'b number" where
  "num_add J NaN k = NaN"
| "num_add J (Small a) k = number_of J (a + k)"
| "num_add J (Big b) k = big_add J b k"

text \<open>\<^verbatim>\<open>x !== y\<close> on numbers.\<close>

definition strict_neq :: "'b number \<Rightarrow> 'b number \<Rightarrow> bool" where
  "strict_neq x y = (x = NaN \<or> y = NaN \<or> x \<noteq> y)"

text \<open>\<^verbatim>\<open>String(x)\<close>, as \<^verbatim>\<open>join\<close> and a template write a number.\<close>

fun number_to_string :: "'b doubles \<Rightarrow> 'b number \<Rightarrow> string" where
  "number_to_string J NaN = ''NaN''"
| "number_to_string J (Small i) =
     (if i < 0 then CHR ''-'' # nat_to_string (nat (- i)) else nat_to_string (nat i))"
| "number_to_string J (Big b) = big_to_string J b"

text \<open>\<^verbatim>\<open>xs.join(".")\<close> on strings.\<close>

fun join_dot :: "string list \<Rightarrow> string" where
  "join_dot [] = []"
| "join_dot [x] = x"
| "join_dot (x # y # ys) = x @ CHR ''.'' # join_dot (y # ys)"

text \<open>\<^verbatim>\<open>s.split(".")\<close>: the pieces between the dots, at least one piece.\<close>

function split_dot :: "string \<Rightarrow> string list" where
  "split_dot s =
     (case dropWhile (\<lambda>c. c \<noteq> CHR ''.'') s of
        [] \<Rightarrow> [s]
      | d # r \<Rightarrow> takeWhile (\<lambda>c. c \<noteq> CHR ''.'') s # split_dot r)"
  by pat_completeness auto
termination
proof (relation "measure length")
  show "wf (measure length)" by simp
next
  fix s :: string and d r
  assume "dropWhile (\<lambda>c. c \<noteq> CHR ''.'') s = d # r"
  then have "length (d # r) \<le> length s"
    using length_dropWhile_le [of "\<lambda>c. c \<noteq> CHR ''.''" s] by simp
  then show "(r, s) \<in> measure length" by simp
qed

text \<open>\<^verbatim>\<open>s.startsWith(t)\<close>.\<close>

definition startsWith :: "string \<Rightarrow> string \<Rightarrow> bool" where
  "startsWith s t = (take (length t) s = t)"

text \<open>
  \<^verbatim>\<open>s.toLowerCase()\<close> on code units below 256: the letters A to Z and the capital
  letters of Latin-1 (codes 192 to 222 but the multiplication sign, 215) move up by 32.
\<close>

definition lower_char :: "char \<Rightarrow> char" where
  "lower_char c =
     (let n = (of_char c :: nat)
      in if (65 \<le> n \<and> n \<le> 90) \<or> (192 \<le> n \<and> n \<le> 222 \<and> n \<noteq> 215)
         then char_of (n + 32) else c)"

definition toLowerCase :: "string \<Rightarrow> string" where
  "toLowerCase s = map lower_char s"

section \<open>Paragraph search\<close>

record ParagraphSearchResult =
  result_index :: int
  result_paragraph :: string

text \<open>
  The module holds two implementations of \<^verbatim>\<open>findParagraphByItemNumber\<close>. The first one
  below is the one of the revision that also holds \<^verbatim>\<open>renumberHierarchical\<close>: the loop
  over the indices leaves at the first paragraph that starts with the trimmed item
  number and a space, a dot or a closing parenthesis, or that is the trimmed item number.
\<close>

function findParagraph_loop :: "string list \<Rightarrow> string \<Rightarrow> nat \<Rightarrow> ParagraphSearchResult" where
  "findParagraph_loop paragraphs target i =
     (if i < length paragraphs then
        (let paragraph = paragraphs ! i
         in if startsWith paragraph (target @ '' '') \<or>
               startsWith paragraph (target @ ''.'') \<or>
               startsWith paragraph (target @ '')'') \<or>
               paragraph = target
            then \<lparr>result_index = int i, result_paragraph = paragraph\<rparr>
            else findParagraph_loop paragraphs target (i + 1))
      else \<lparr>result_index = - 1, result_paragraph = []\<rparr>)"
  by pat_completeness auto
termination
  by (relation "measure (\<lambda>(paragraphs, target, i). length paragraphs - i)") auto

definition findParagraphByItemNumber :: "string list \<Rightarrow> string \<Rightarrow> ParagraphSearchResult" where
  "findParagraphByItemNumber paragraphs itemNumber =
     (let target = trim itemNumber in findParagraph_loop paragraphs target 0)"

text \<open>
  The second implementation, of the other revision. The search term is the trimmed
  item number in lower case. A paragraph passes when the regular expression
  \<^verbatim>\<open>^\s*TERM[\s\.)]+\<close> with the flag \<^verbatim>\<open>i\<close> matches it, where \<^verbatim>\<open>TERM\<close> is the search term
  with every special character escaped by \<^verbatim>\<open>escapeRegex\<close>, so that it stands for itself;
  or when the paragraph in lower case starts with the search term.

  Under the flag \<^verbatim>\<open>i\<close> two code units below 256 match each other exactly when their
  lower case forms are equal. The search term does not start with white space, so the
  white space before it is the whole run at the start of the paragraph; when the search
  term is empty, the expression asks for a paragraph that starts with white space, or,
  after its white space, with a dot or a closing parenthesis.
\<close>

definition in_class :: "char \<Rightarrow> bool" where
  "in_class c = (is_ws c \<or> c = CHR ''.'' \<or> c = CHR '')'')"

definition regex_test :: "string \<Rightarrow> string \<Rightarrow> bool" where
  "regex_test searchTerm paragraph =
     (let s1 = dropWhile is_ws paragraph;
          r = drop (length searchTerm) s1
      in (length searchTerm \<le> length s1 \<and>
          toLowerCase (take (length searchTerm) s1) = toLowerCase searchTerm \<and>
          r \<noteq> [] \<and> in_class (hd r))
         \<or> (searchTerm = [] \<and> paragraph \<noteq> [] \<and> is_ws (hd paragraph)))"

function findParagraph_loop2 :: "string list \<Rightarrow> string \<Rightarrow> nat \<Rightarrow> ParagraphSearchResult" where
  "findParagraph_loop2 paragraphs searchTerm i =
     (if i < length paragraphs then
        (let paragraph = paragraphs ! i
         in if regex_test searchTerm paragraph
            then \<lparr>result_index = int i, result_paragraph = paragraph\<rparr>
            else if startsWith (toLowerCase paragraph) (toLowerCase searchTerm)
            then \<lparr>result_index = int i, result_paragraph = paragraph\<rparr>
            else findParagraph_loop2 paragraphs searchTerm (i + 1))
      else \<lparr>result_index = - 1, result_paragraph = []\<rparr>)"
  by pat_completeness auto
termination
  by (relation "measure (\<lambda>(paragraphs, searchTerm, i). length paragraphs - i)") auto

definition findParagraphByItemNumber2 :: "string list \<Rightarrow> string \<Rightarrow> ParagraphSearchResult" where
  "findParagraphByItemNumber2 paragraphs itemNumber =
     (let searchTerm = toLowerCase (trim itemNumber)
      in findParagraph_loop2 paragraphs searchTerm 0)"

section \<open>Flat numbering check\<close>

record 'b NumberingIssue =
  issue_index :: nat
  issue_found :: "'b number"
  issue_expected :: "'b number"
  issue_text :: string

text \<open>
  The pattern \<^verbatim>\<open>/^\s*(\d+)[\.)]\s+/\<close>: white space, the longest run of digits (not
  empty), a dot or a closing parenthesis, and one white space at least. The result is
  the captured run of digits.
\<close>

definition match_flat :: "string \<Rightarrow> string option" where
  "match_flat p =
     (let s1 = dropWhile is_ws p;
          m1 = takeWhile is_digit s1;
          s2 = dropWhile is_digit s1
      in if m1 = [] then None
         else (case s2 of
                 d # w # r \<Rightarrow>
                   if (d = CHR ''.'' \<or> d = CHR '')'') \<and> is_ws w then Some m1 else None
               | _ \<Rightarrow> None))"

function checkNumbering_loop ::
  "'b doubles \<Rightarrow> string list \<Rightarrow> nat \<Rightarrow> 'b number \<Rightarrow> 'b NumberingIssue list \<Rightarrow>
   'b NumberingIssue list" where
  "checkNumbering_loop J paragraphs i expected issues =
     (if i < length paragraphs then
        (let p = paragraphs ! i
         in case match_flat p of
              Some m1 \<Rightarrow>
                (let found = parseInt J m1
                 in if strict_neq found expected
                    then checkNumbering_loop J paragraphs (i + 1) (num_add J found 1)
                           (issues @ [\<lparr>issue_index = i, issue_found = found,
                                       issue_expected = expected, issue_text = p\<rparr>])
                    else checkNumbering_loop J paragraphs (i + 1) (num_add J expected 1) issues)
            | None \<Rightarrow> checkNumbering_loop J paragraphs (i + 1) expected issues)
      else issues)"
  by pat_completeness auto
termination
  by (relation "measure (\<lambda>(J, paragraphs, i, expected, issues). length paragraphs - i)") auto

definition checkNumbering :: "'b doubles \<Rightarrow> string list \<Rightarrow> 'b NumberingIssue list" where
  "checkNumbering J paragraphs = checkNumbering_loop J paragraphs 0 (Small 1) []"

section \<open>Hierarchical renumbering\<close>

text \<open>
  The groups \<^verbatim>\<open>(?:\.\d+)*\<close> after the first run of digits: as long as a dot and a digit
  follow, the dot and the longest run of digits are taken. The result is the text taken
  and the text left.
\<close>

function more_groups :: "string \<Rightarrow> string \<times> string" where
  "more_groups s =
     (case s of
        c # d # r \<Rightarrow>
          if c = CHR ''.'' \<and> is_digit d
          then (let (g, s') = more_groups (dropWhile is_digit r)
                in (c # d # takeWhile is_digit r @ g, s'))
          else ([], s)
      | _ \<Rightarrow> ([], s))"
  by pat_completeness auto
termination
proof (relation "measure length")
  show "wf (measure length)" by simp
next
  fix s :: string and c x d r
  assume "s = c # x" "x = d # r"
  then show "(dropWhile is_digit r, s) \<in> measure length"
    using length_dropWhile_le [of is_digit r] by simp
qed

text \<open>
  The pattern \<^verbatim>\<open>/^\s*(\d+(?:\.\d+)*)([.)])?\s+(.*)$/\<close>. Each part takes the longest text it
  can, and no shorter choice lets the rest match: after the numbering comes the optional
  delimiter, then the white space, all of it, and the rest must reach the end of the
  string without a line terminator. The result is the numbering, the delimiter (empty
  when there is none) and the rest.
\<close>

definition match_hier :: "string \<Rightarrow> (string \<times> string \<times> string) option" where
  "match_hier p =
     (let s1 = dropWhile is_ws p;
          first = takeWhile is_digit s1;
          (groups, s2) = more_groups (dropWhile is_digit s1);
          numberingStr = first @ groups;
          delim = (case s2 of c # r \<Rightarrow> if c = CHR ''.'' \<or> c = CHR '')'' then [c] else [] | [] \<Rightarrow> []);
          s3 = drop (length delim) s2;
          restRaw = dropWhile is_ws s3
      in if first = [] then None
         else if s3 = [] \<or> \<not> is_ws (hd s3) then None
         else if \<exists>c \<in> set restRaw. is_line_terminator c then None
         else Some (numberingStr, delim, restRaw))"

text \<open>
  The corrected path of a numbered paragraph, from the path carried so far and the path
  read: the branches of the source in their order. \<^verbatim>\<open>current.slice(0, k)\<close> is
  \<^term>\<open>take k current\<close>; the path read is never empty, since \<^verbatim>\<open>split\<close> gives one piece at
  least, so that every index read is in range.
\<close>

definition expected_path ::
  "'b doubles \<Rightarrow> 'b number list \<Rightarrow> 'b number list \<Rightarrow> 'b number list" where
  "expected_path J current found =
     (if length current = 0 then found
      else (let dFound = length found; dCurr = length current
            in if dFound = dCurr
               then take (dCurr - 1) current @ [num_add J (current ! (dCurr - 1)) 1]
               else if dFound = dCurr + 1 then current @ [Small 1]
               else if dFound < dCurr
                    then take (dFound - 1) current @ [num_add J (current ! (dFound - 1)) 1]
               else current @ replicate (dFound - dCurr) (Small 1)))"

text \<open>
  The loop of \<^verbatim>\<open>renumberHierarchical\<close>: the state is the index, the path \<^verbatim>\<open>current\<close> and
  the output \<^verbatim>\<open>out\<close>. The loop gives the path and the output it ends with; the function
  returns the output.
\<close>

function renumber_loop ::
  "'b doubles \<Rightarrow> string list \<Rightarrow> nat \<Rightarrow> 'b number list \<Rightarrow> string list \<Rightarrow>
   'b number list \<times> string list" where
  "renumber_loop J paragraphs i current out =
     (if i < length paragraphs then
        (let original = paragraphs ! i
         in case match_hier original of
              None \<Rightarrow> renumber_loop J paragraphs (i + 1) current (out @ [original])
            | Some (numberingStr, delim, restRaw) \<Rightarrow>
                (let rest = norm restRaw;
                     found = map (parseInt J) (split_dot numberingStr);
                     expected = expected_path J current found;
                     expectedStr = join_dot (map (number_to_string J) expected);
                     replaced = expectedStr @ delim @ '' '' @ rest
                 in renumber_loop J paragraphs (i + 1) expected (out @ [replaced])))
      else (current, out))"
  by pat_completeness auto
termination
  by (relation "measure (\<lambda>(J, paragraphs, i, current, out). length paragraphs - i)") auto

definition renumberHierarchical :: "'b doubles \<Rightarrow> string list \<Rightarrow> string list" where
  "renumberHierarchical J paragraphs = snd (renumber_loop J paragraphs 0 [] [])"

text \<open>
  The path \<^verbatim>\<open>current\<close> that the loop carries once it has gone through the paragraphs
  \<open>pre\<close>.
\<close>

definition carried_path :: "'b doubles \<Rightarrow> string list \<Rightarrow> 'b number list" where
  "carried_path J pre = fst (renumber_loop J pre 0 [] [])"

section \<open>Comparison of two paragraph sequences\<close>

record CompareResult =
  missingInTarget :: "string list"
  extraInTarget :: "string list"

text \<open>The local \<^verbatim>\<open>norm\<close> of \<^verbatim>\<open>compareParagraphSets\<close>, on a whole sequence.\<close>

definition norm_lower :: "string list \<Rightarrow> string list" where
  "norm_lower arr = map (\<lambda>p. toLowerCase (trim (collapse_ws p))) arr"

definition compareParagraphSets :: "string list \<Rightarrow> string list \<Rightarrow> CompareResult" where
  "compareParagraphSets reference target =
     (let a = norm_lower reference;
          b = norm_lower target;
          setB = set b;
          setA = set a
      in \<lparr>missingInTarget =
            map (\<lambda>idx. reference ! idx)
              (filter (\<lambda>idx. a ! idx \<notin> setB) [0 ..< length reference]),
          extraInTarget =
            map (\<lambda>idx. target ! idx)
              (filter (\<lambda>idx. b ! idx \<notin> setA) [0 ..< length target])\<rparr>)"

text \<open>The loops are unfolded by hand in the proofs.\<close>

declare findParagraph_loop.simps [simp del]
declare findParagraph_loop2.simps [simp del]
declare checkNumbering_loop.simps [simp del]
declare renumber_loop.simps [simp del]
declare split_dot.simps [simp del]
declare more_groups.simps [simp del]
declare nat_to_string.simps [simp del]

section \<open>The markup walker\<close>

text \<open>
  The tree that the browser builds from the markup: a node is a text node or an element
  with its local name in lower case (what \<^verbatim>\<open>tagName.toLowerCase()\<close> gives and what the
  selectors compare), its attributes and its child nodes. \<^verbatim>\<open>el.children\<close> are the child
  nodes that are elements.
\<close>

datatype node = Text string | Element string "(string \<times> string) list" "node list"

fun textContent :: "node \<Rightarrow> string" where
  "textContent (Text s) = s"
| "textContent (Element t as cs) = concat (map textContent cs)"

text \<open>
  \<^verbatim>\<open>clone.querySelectorAll("ol, ul").forEach((n) => n.remove())\<close>: every list below the
  node is taken out of the copy.
\<close>

fun is_list :: "node \<Rightarrow> bool" where
  "is_list (Text s) = False"
| "is_list (Element t as cs) = (t = ''ol'' \<or> t = ''ul'')"

fun remove_lists :: "node \<Rightarrow> node" where
  "remove_lists (Text s) = Text s"
| "remove_lists (Element t as cs) =
     Element t as (map remove_lists (filter (\<lambda>c. \<not> is_list c) cs))"

definition liMainText :: "node \<Rightarrow> string" where
  "liMainText li = norm (textContent (remove_lists li))"

text \<open>
  \<^verbatim>\<open>li.querySelectorAll(":scope > ul > li")\<close> with the body of its loop: the normal form
  of the whole text of every item of every unordered list directly below the item, when
  it is not empty.
\<close>

fun bullet_item :: "node \<Rightarrow> string list" where
  "bullet_item (Text s) = []"
| "bullet_item (Element t as cs) =
     (if t = ''li''
      then (let bulletText = norm (textContent (Element t as cs))
            in if bulletText \<noteq> [] then [bulletText] else [])
      else [])"

fun bullets :: "node \<Rightarrow> string list" where
  "bullets (Text s) = []"
| "bullets (Element t as cs) = (if t = ''ul'' then concat (map bullet_item cs) else [])"

text \<open>
  \<^verbatim>\<open>processOl\<close>. The paragraphs pushed to \<^verbatim>\<open>paras\<close> are returned in the order of the
  pushes. \<open>processOl_items\<close> is the loop over \<^verbatim>\<open>ol.children\<close> with the variable
  \<^verbatim>\<open>counter\<close>, and \<open>processOl_nested\<close> the loop over the ordered lists directly below an
  item. An attribute that is absent (\<^verbatim>\<open>null\<close>) or empty is false in the test
  \<^verbatim>\<open>startAttr ? ... : ...\<close>.
\<close>

fun processOl :: "'b doubles \<Rightarrow> node \<Rightarrow> 'b number list \<Rightarrow> string list"
and processOl_items ::
  "'b doubles \<Rightarrow> node list \<Rightarrow> 'b number list \<Rightarrow> 'b number \<Rightarrow> string list"
and processOl_nested :: "'b doubles \<Rightarrow> node list \<Rightarrow> 'b number list \<Rightarrow> string list" where
  "processOl J (Text s) stack = []"
| "processOl J (Element t as cs) stack =
     (let startAttr = map_of as ''start'';
          start = (case startAttr of
                     Some s \<Rightarrow> if s \<noteq> [] then parseInt J s else Small 1
                   | None \<Rightarrow> Small 1);
          counter = num_add J start (- 1)
      in processOl_items J cs stack counter)"
| "processOl_items J [] stack counter = []"
| "processOl_items J (Text s # rest) stack counter = processOl_items J rest stack counter"
| "processOl_items J (Element t as cs # rest) stack counter =
     (if t \<noteq> ''li'' then processOl_items J rest stack counter
      else (let valueAttr = map_of as ''value'';
                current = (case valueAttr of
                             Some v \<Rightarrow> if v \<noteq> [] then parseInt J v else num_add J counter 1
                           | None \<Rightarrow> num_add J counter 1);
                numbering = join_dot (map (number_to_string J) (stack @ [current]));
                mainText = liMainText (Element t as cs)
            in (if mainText \<noteq> [] then [numbering @ '' '' @ mainText] else [])
               @ processOl_nested J cs (stack @ [current])
               @ concat (map bullets cs)
               @ processOl_items J rest stack current))"
| "processOl_nested J [] stack = []"
| "processOl_nested J (c # cs) stack =
     (case c of
        Element t as' cs' \<Rightarrow> if t = ''ol'' then processOl J c stack else []
      | Text s \<Rightarrow> [])
     @ processOl_nested J cs stack"

text \<open>
  \<^verbatim>\<open>walk\<close>: \<open>walk_children\<close> is the loop over \<^verbatim>\<open>root.children\<close>, \<open>walk_items\<close> the loop
  over the items of an unordered list, and \<open>walk_nested\<close> the loop over the unordered
  lists directly below such an item.
\<close>

fun walk :: "'b doubles \<Rightarrow> node \<Rightarrow> string list"
and walk_children :: "'b doubles \<Rightarrow> node list \<Rightarrow> string list"
and walk_items :: "'b doubles \<Rightarrow> node list \<Rightarrow> string list"
and walk_nested :: "'b doubles \<Rightarrow> node list \<Rightarrow> string list" where
  "walk J (Text s) = []"
| "walk J (Element t as cs) = walk_children J cs"
| "walk_children J [] = []"
| "walk_children J (Text s # rest) = walk_children J rest"
| "walk_children J (Element t as cs # rest) =
     (if t = ''p''
      then (let txt = norm (textContent (Element t as cs)) in if txt \<noteq> [] then [txt] else [])
      else if t = ''ol'' then processOl J (Element t as cs) []
      else if t = ''ul'' then walk_items J cs
      else walk J (Element t as cs))
     @ walk_children J rest"
| "walk_items J [] = []"
| "walk_items J (Text s # rest) = walk_items J rest"
| "walk_items J (Element t as cs # rest) =
     (if t = ''li''
      then (let txt = liMainText (Element t as cs) in if txt \<noteq> [] then [txt] else [])
           @ processOl_nested J cs []
           @ walk_nested J cs
      else [])
     @ walk_items J rest"
| "walk_nested J [] = []"
| "walk_nested J (c # cs) =
     (case c of
        Element t as' cs' \<Rightarrow> if t = ''ul'' then walk J c else []
      | Text s \<Rightarrow> [])
     @ walk_nested J cs"

text \<open>
  \<^verbatim>\<open>extractParagraphsFromHtml\<close>, from the container that holds the parsed markup.
\<close>

definition extractParagraphsFromHtml :: "'b doubles \<Rightarrow> node \<Rightarrow> string list" where
  "extractParagraphsFromHtml J container = walk J container"

section \<open>Notions used in the statements and proofs\<close>

text \<open>
  A string is tidy when its only white space is the space character and no space is
  followed by white space.
\<close>

fun tidy :: "string \<Rightarrow> bool" where
  "tidy [] = True"
| "tidy [c] = (is_ws c \<longrightarrow> c = CHR '' '')"
| "tidy (c # d # cs) = ((is_ws c \<longrightarrow> c = CHR '' '' \<and> \<not> is_ws d) \<and> tidy (d # cs))"

text \<open>A string is trimmed when it neither starts nor ends with white space.\<close>

definition trimmed :: "string \<Rightarrow> bool" where
  "trimmed s = (s = [] \<or> (\<not> is_ws (hd s) \<and> \<not> is_ws (last s)))"

text \<open>
  The normal form of a paragraph in the comparison, in the words of the specification:
  white space runs collapsed, trimmed, case-folded.
\<close>

definition normal_form :: "string \<Rightarrow> string" where
  "normal_form p = toLowerCase (trim (collapse_ws p))"

text \<open>
  The test of the claim, in its words: the paragraph is the token followed by a space, a
  dot or a closing parenthesis and any text, or it is the token.
\<close>

definition item_match :: "string \<Rightarrow> string \<Rightarrow> bool" where
  "item_match token p =
     ((\<exists>c r. (c = CHR '' '' \<or> c = CHR ''.'' \<or> c = CHR '')'') \<and> p = token @ c # r) \<or> p = token)"

text \<open>
  The scan of the numbering check, in the words of the specification: the counter
  \<open>expected\<close> and the index go through the paragraphs; a paragraph with no marker leaves
  the counter as it is, a marker equal to the counter increments it, and any other
  marker gives one issue and sets the counter to the marker plus one.
\<close>

fun flat_scan ::
  "'b doubles \<Rightarrow> 'b number \<Rightarrow> nat \<Rightarrow> string list \<Rightarrow> 'b NumberingIssue list" where
  "flat_scan J expected i [] = []"
| "flat_scan J expected i (p # ps) =
     (case match_flat p of
        None \<Rightarrow> flat_scan J expected (i + 1) ps
      | Some m \<Rightarrow>
          if parseInt J m = expected then flat_scan J (num_add J expected 1) (i + 1) ps
          else \<lparr>issue_index = i, issue_found = parseInt J m,
                 issue_expected = expected, issue_text = p\<rparr>
               # flat_scan J (num_add J (parseInt J m) 1) (i + 1) ps)"

text \<open>
  A flat marker, in the words of the specification: after white space, if any, one or
  more decimal digits, then a dot or a closing parenthesis, then white space.
\<close>

definition flat_marker :: "string \<Rightarrow> string \<Rightarrow> bool" where
  "flat_marker p m =
     (\<exists>w d c r. p = w @ m @ d # c # r \<and> (\<forall>x \<in> set w. is_ws x) \<and>
        m \<noteq> [] \<and> (\<forall>x \<in> set m. is_digit x) \<and>
        (d = CHR ''.'' \<or> d = CHR '')'') \<and> is_ws c)"

text \<open>One turn of the loop of the renumbering: the new path and the paragraph written.\<close>

definition hier_step ::
  "'b doubles \<Rightarrow> 'b number list \<Rightarrow> string \<Rightarrow> 'b number list \<times> string" where
  "hier_step J current original =
     (case match_hier original of
        None \<Rightarrow> (current, original)
      | Some (numberingStr, delim, restRaw) \<Rightarrow>
          (let expected = expected_path J current (map (parseInt J) (split_dot numberingStr))
           in (expected,
               join_dot (map (number_to_string J) expected) @ delim @ '' '' @ norm restRaw)))"

text \<open>The paragraphs written and the path reached by the turns over a sequence.\<close>

fun scan_out :: "'b doubles \<Rightarrow> 'b number list \<Rightarrow> string list \<Rightarrow> string list" where
  "scan_out J current [] = []"
| "scan_out J current (p # ps) =
     snd (hier_step J current p) # scan_out J (fst (hier_step J current p)) ps"

fun scan_path :: "'b doubles \<Rightarrow> 'b number list \<Rightarrow> string list \<Rightarrow> 'b number list" where
  "scan_path J current [] = current"
| "scan_path J current (p # ps) = scan_path J (fst (hier_step J current p)) ps"

text \<open>
  The corrected path after the first numbered paragraph, in the words of the
  specification, from the carried path and the depth of the path read. To increment an
  element is to add 1 to it as the script does.
\<close>

definition corrected_path :: "'b doubles \<Rightarrow> 'b number list \<Rightarrow> nat \<Rightarrow> 'b number list" where
  "corrected_path J current dFound =
     (if dFound = length current then butlast current @ [num_add J (last current) 1]
      else if dFound = length current + 1 then current @ [Small 1]
      else if dFound < length current
           then butlast (take dFound current) @ [num_add J (last (take dFound current)) 1]
      else current @ replicate (dFound - length current) (Small 1))"

text \<open>A group is a run of digits that is not empty.\<close>

definition digit_group :: "string \<Rightarrow> bool" where
  "digit_group g = (g \<noteq> [] \<and> list_all is_digit g)"

text \<open>The items of a list, the attribute \<^verbatim>\<open>value\<close> of an item and its child nodes.\<close>

fun is_li :: "node \<Rightarrow> bool" where
  "is_li (Text s) = False"
| "is_li (Element t as cs) = (t = ''li'')"

fun value_attr :: "node \<Rightarrow> string option" where
  "value_attr (Text s) = None"
| "value_attr (Element t as cs) = map_of as ''value''"

fun child_nodes :: "node \<Rightarrow> node list" where
  "child_nodes (Text s) = []"
| "child_nodes (Element t as cs) = cs"

text \<open>
  What an item with the number \<open>n\<close> under the prefix \<open>stack\<close> contributes, in the words of
  the specification: its path is the prefix and then \<open>n\<close>; the path joined by dots, a
  space and the main text of the item make its paragraph, written when the main text is
  not empty; then come the ordered lists directly below the item, under the path of the
  item, and the items of the unordered lists directly below it.
\<close>

definition item_paragraphs ::
  "'b doubles \<Rightarrow> 'b number list \<Rightarrow> 'b number \<Rightarrow> node \<Rightarrow> string list" where
  "item_paragraphs J stack n li =
     (if liMainText li \<noteq> []
      then [join_dot (map (number_to_string J) (stack @ [n])) @ '' '' @ liMainText li]
      else [])
     @ processOl_nested J (child_nodes li) (stack @ [n])
     @ concat (map bullets (child_nodes li))"

text \<open>
  The numbers of the items of a list from their attributes: \<open>next\<close> is the number an item
  without an override gets; an attribute \<^verbatim>\<open>value\<close> that is present and not empty gives
  the item the number \<^verbatim>\<open>parseInt\<close> reads from it; the item after it gets one more.
\<close>

fun numbers_from :: "'b doubles \<Rightarrow> 'b number \<Rightarrow> string option list \<Rightarrow> 'b number list" where
  "numbers_from J next [] = []"
| "numbers_from J next (v # vs) =
     (let n = (case v of Some s \<Rightarrow> if s = [] then next else parseInt J s | None \<Rightarrow> next)
      in n # numbers_from J (num_add J n 1) vs)"

text \<open>
  The number read for the start of a list: what \<^verbatim>\<open>parseInt\<close> reads from the attribute
  \<^verbatim>\<open>start\<close> when it is present and not empty, and 1 otherwise.
\<close>

definition start_number :: "'b doubles \<Rightarrow> (string \<times> string) list \<Rightarrow> 'b number" where
  "start_number J as =
     (case map_of as ''start'' of
        Some s \<Rightarrow> if s = [] then Small 1 else parseInt J s
      | None \<Rightarrow> Small 1)"

text \<open>
  The number of the first item of a list, when the item has no override: the counter
  starts one below the number read for the start, and the item gets one more.
\<close>

definition first_number :: "'b doubles \<Rightarrow> (string \<times> string) list \<Rightarrow> 'b number" where
  "first_number J as = num_add J (num_add J (start_number J as) (- 1)) 1"

text \<open>
  The numbers 1, 2, 3 and so on as the script counts them, each one the sum of 1 and the
  one before: \<open>counted J k\<close> is the number of the item at the index \<open>k\<close> of a list with
  no attribute.
\<close>

primrec counted :: "'b doubles \<Rightarrow> nat \<Rightarrow> 'b number" where
  "counted J 0 = Small 1"
| "counted J (Suc k) = num_add J (counted J k) 1"

text \<open>An item with nothing but a text, with or without the attribute \<^verbatim>\<open>value\<close>.\<close>

definition plain_item :: "string option \<Rightarrow> string \<Rightarrow> node" where
  "plain_item v t =
     Element ''li'' (case v of Some s \<Rightarrow> [(''value'', s)] | None \<Rightarrow> []) [Text t]"

text \<open>
  A paragraph with a hierarchical numbering, in the words of the specification: after
  white space, if any, one or more groups of digits joined by dots, then a dot or a
  closing parenthesis or nothing, then white space, then the rest of the text, which has
  no line terminator.
\<close>

definition hier_prefixed :: "string \<Rightarrow> bool" where
  "hier_prefixed p =
     (\<exists>w gs d w2 r. p = w @ join_dot gs @ d @ w2 @ r \<and> list_all is_ws w \<and>
        gs \<noteq> [] \<and> list_all digit_group gs \<and> (d = [] \<or> d = ''.'' \<or> d = '')'') \<and>
        w2 \<noteq> [] \<and> list_all is_ws w2 \<and> list_all (\<lambda>c. \<not> is_line_terminator c) r)"

text \<open>
  A number is printable when it prints as a run of digits: an integer from 0 on and
  below \<open>2 ^ 53\<close>, or a double of size \<open>2 ^ 53\<close> or more whose text is a run of digits.
\<close>

fun printable :: "'b doubles \<Rightarrow> 'b number \<Rightarrow> bool" where
  "printable J NaN = False"
| "printable J (Small i) = (0 \<le> i \<and> i < 9007199254740992)"
| "printable J (Big b) = digit_group (big_to_string J b)"

text \<open>
  A text blocks when, after groups of digits joined by dots, if any, it goes on with a
  character that is no digit, no dot, no closing parenthesis and no white space: so do
  \<^verbatim>\<open>1e+21\<close>, \<^verbatim>\<open>1.5e+21\<close>, \<^verbatim>\<open>Infinity\<close>, \<^verbatim>\<open>NaN\<close> and \<^verbatim>\<open>-5\<close>.
\<close>

definition blocks :: "string \<Rightarrow> bool" where
  "blocks s =
     (\<exists>gs c t. s = join_dot gs @ c # t \<and> list_all digit_group gs \<and>
        \<not> is_digit c \<and> c \<noteq> CHR ''.'' \<and> c \<noteq> CHR '')'' \<and> \<not> is_ws c)"

text \<open>A number is plain when it is printable or its text blocks.\<close>

definition plain :: "'b doubles \<Rightarrow> 'b number \<Rightarrow> bool" where
  "plain J x = (printable J x \<or> blocks (number_to_string J x))"

text \<open>
  What the second run of the renumbering uses of the doubles of size \<open>2 ^ 53\<close> or more.
  It holds of the doubles of the script:
  \<^item> such a double prints as a run of digits when it is positive and below \<open>10 ^ 21\<close>, and
    otherwise with a minus sign, with an exponent (\<^verbatim>\<open>1e+21\<close>, \<^verbatim>\<open>1.5e+21\<close>) or as
    \<^verbatim>\<open>Infinity\<close>, which are texts that block;
  \<^item> when it prints as a run of digits, \<^verbatim>\<open>parseInt\<close> reads the same double back from
    that text, since the digits written denote an integer that rounds to the double;
  \<^item> its sum with 1 is such a double again, or an integer below \<open>2 ^ 53\<close> in size;
  \<^item> the sum of 1 and a number that prints as a run of digits prints as a run of
    digits, since below \<open>10 ^ 21\<close> the sum with 1 stays below \<open>10 ^ 21\<close>.
\<close>

definition prints_back :: "'b doubles \<Rightarrow> bool" where
  "prints_back J =
     ((\<forall>b. plain J (Big b)) \<and>
      (\<forall>b. digit_group (big_to_string J b) \<longrightarrow> parseInt J (big_to_string J b) = Big b) \<and>
      (\<forall>b. plain J (big_add J b 1)) \<and>
      (\<forall>x. printable J x \<longrightarrow> printable J (num_add J x 1)))"

text \<open>
  An instance of the parameters in which every integer is a number of its own, given by
  its sign and by what its size is above \<open>2 ^ 53\<close>. It does not round, so it is not the
  doubles of the script from \<open>2 ^ 53\<close> on; it serves to evaluate the functions on inputs
  whose numbers stay below \<open>2 ^ 53\<close> in size, where no parameter is used, and it shows
  that \<open>prints_back\<close> can hold.
\<close>

definition exact_value :: "bool \<times> nat \<Rightarrow> int" where
  "exact_value b = (if fst b then - (9007199254740992 + int (snd b))
                    else 9007199254740992 + int (snd b))"

definition exact_big :: "int \<Rightarrow> bool \<times> nat" where
  "exact_big i = (i < 0, nat (\<bar>i\<bar> - 9007199254740992))"

definition exact_doubles :: "(bool \<times> nat) doubles" where
  "exact_doubles =
     \<lparr>big_of = exact_big,
      big_add = (\<lambda>b k. if \<bar>exact_value b + k\<bar> < 9007199254740992
                        then Small (exact_value b + k)
                        else Big (exact_big (exact_value b + k))),
      big_to_string = (\<lambda>b. if fst b then CHR ''-'' # nat_to_string (9007199254740992 + snd b)
                             else nat_to_string (9007199254740992 + snd b))\<rparr>"

section \<open>Normal forms of strings\<close>

lemma is_ws_space [simp]: "is_ws CHR '' ''"
  by (simp add: is_ws_def)

lemma tidy_Cons: "tidy (c # cs) \<Longrightarrow> tidy cs"
  by (cases cs) auto

lemma tidy_collapse_ws: "tidy (collapse_ws s)"
proof (induction s rule: collapse_ws.induct)
  case 1
  show ?case by simp
next
  case (2 c cs)
  show ?case
  proof (cases "is_ws c")
    case True
    let ?r = "dropWhile is_ws cs"
    have t: "tidy (collapse_ws ?r)" using 2(1) True by simp
    have e: "collapse_ws (c # cs) = CHR '' '' # collapse_ws ?r" using True by simp
    show ?thesis
    proof (cases ?r)
      case Nil
      show ?thesis unfolding e Nil by simp
    next
      case (Cons d ds)
      then have nd: "\<not> is_ws d" using hd_dropWhile [of is_ws cs] by auto
      from t nd show ?thesis unfolding e Cons by simp
    qed
  next
    case False
    with 2(2) show ?thesis by (cases "collapse_ws cs") auto
  qed
qed

lemma collapse_ws_tidy: "tidy s \<Longrightarrow> collapse_ws s = s"
proof (induction s rule: tidy.induct)
  case 1
  show ?case by simp
next
  case (2 c)
  then show ?case by simp
next
  case (3 c d cs)
  then show ?case by auto
qed

lemma tidy_append_left: "tidy (xs @ ys) \<Longrightarrow> tidy xs"
proof (induction xs rule: tidy.induct)
  case 1
  show ?case by simp
next
  case (2 c)
  then show ?case by (cases ys) auto
next
  case (3 c d cs)
  then show ?case by auto
qed

lemma tidy_append_right: "tidy (xs @ ys) \<Longrightarrow> tidy ys"
  by (induction xs) (auto dest: tidy_Cons)

lemma tidy_dropWhile: "tidy s \<Longrightarrow> tidy (dropWhile P s)"
  using tidy_append_right [of "takeWhile P s" "dropWhile P s"] by simp

lemma rev_dropWhile_rev_prefix:
  "rev (dropWhile P (rev s)) @ rev (takeWhile P (rev s)) = s"
proof -
  have "rev (takeWhile P (rev s) @ dropWhile P (rev s)) = s" by simp
  then show ?thesis by (simp only: rev_append)
qed

lemma tidy_trim: "tidy s \<Longrightarrow> tidy (trim s)"
proof -
  assume t: "tidy s"
  let ?d = "dropWhile is_ws s"
  have "tidy ?d" using t by (rule tidy_dropWhile)
  then have "tidy (rev (dropWhile is_ws (rev ?d)) @ rev (takeWhile is_ws (rev ?d)))"
    by (simp only: rev_dropWhile_rev_prefix)
  then show ?thesis unfolding trim_def by (rule tidy_append_left)
qed

lemma trim_trimmed: "trimmed s \<Longrightarrow> trim s = s"
proof (cases "s = []")
  case True
  then show ?thesis by (simp add: trim_def)
next
  case False
  assume "trimmed s"
  with False have h: "\<not> is_ws (hd s)" and l: "\<not> is_ws (last s)"
    by (auto simp: trimmed_def)
  from False h have a: "dropWhile is_ws s = s" by (cases s) auto
  from False l have "dropWhile is_ws (rev s) = rev s"
    by (cases "rev s") (auto simp: last_rev [symmetric])
  with a show ?thesis by (simp add: trim_def)
qed

lemma trimmed_trim: "trimmed (trim s)"
proof (cases "trim s = []")
  case True
  then show ?thesis by (simp add: trimmed_def)
next
  case False
  let ?d = "dropWhile is_ws s"
  let ?e = "dropWhile is_ws (rev ?d)"
  have ts: "trim s = rev ?e" by (simp add: trim_def)
  with False have ne: "?e \<noteq> []" by simp
  then have l: "\<not> is_ws (hd ?e)" by (rule hd_dropWhile)
  have last: "last (trim s) = hd ?e" using ne ts by (simp add: last_rev)
  have dne: "?d \<noteq> []"
  proof
    assume "?d = []"
    then have "?e = []" by (simp only: rev.simps dropWhile.simps)
    with ne show False by simp
  qed
  then have hd: "\<not> is_ws (hd ?d)" by (rule hd_dropWhile)
  have "rev ?e @ rev (takeWhile is_ws (rev ?d)) = ?d" by (rule rev_dropWhile_rev_prefix)
  then have "hd ?d = hd (rev ?e)" using ne by (metis hd_append2 rev_is_Nil_conv)
  with hd ts have "\<not> is_ws (hd (trim s))" by simp
  with l last False show ?thesis by (simp add: trimmed_def)
qed

lemma tidy_norm: "tidy (norm s)"
  unfolding norm_def by (rule tidy_trim [OF tidy_collapse_ws])

lemma trimmed_norm: "trimmed (norm s)"
  unfolding norm_def by (rule trimmed_trim)

lemma norm_fixed: "tidy s \<Longrightarrow> trimmed s \<Longrightarrow> norm s = s"
  by (simp add: norm_def collapse_ws_tidy trim_trimmed)

lemma norm_norm: "norm (norm s) = norm s"
  by (rule norm_fixed [OF tidy_norm trimmed_norm])

text \<open>
  C9. \<^verbatim>\<open>normalizeParagraphs\<close> is idempotent: normalising a normalised sequence gives the
  same sequence. Every entry of the result is the collapsed and trimmed form of an input
  entry, none is empty, and the entries come in the order of the input.
\<close>

theorem normalizeParagraphs_idempotent:
  "normalizeParagraphs (normalizeParagraphs xs) = normalizeParagraphs xs"
proof -
  have "map norm (filter (\<lambda>p. length p > 0) (map norm xs))
        = filter (\<lambda>p. length p > 0) (map norm xs)"
    by (induction xs) (auto simp: norm_norm)
  then show ?thesis by (simp add: normalizeParagraphs_def)
qed

section \<open>The comparison as a set difference\<close>

lemma map_nth_filter_index:
  "map (\<lambda>idx. xs ! idx) (filter (\<lambda>idx. P (map f xs ! idx)) [0 ..< length xs])
   = filter (\<lambda>x. P (f x)) xs"
proof (induction xs rule: rev_induct)
  case Nil
  show ?case by simp
next
  case (snoc x xs)
  have a: "filter (\<lambda>idx. P (map f (xs @ [x]) ! idx)) [0 ..< length xs]
           = filter (\<lambda>idx. P (map f xs ! idx)) [0 ..< length xs]"
    by (rule filter_cong) (auto simp: nth_append)
  have b: "map (\<lambda>idx. (xs @ [x]) ! idx) (filter (\<lambda>idx. P (map f xs ! idx)) [0 ..< length xs])
           = map (\<lambda>idx. xs ! idx) (filter (\<lambda>idx. P (map f xs ! idx)) [0 ..< length xs])"
    by (rule map_cong) (auto simp: nth_append)
  show ?case using snoc a b by (simp add: nth_append)
qed

lemma missing_filter:
  "missingInTarget (compareParagraphSets reference target)
   = filter (\<lambda>p. normal_form p \<notin> set (map normal_form target)) reference"
proof -
  have n: "norm_lower = map normal_form"
    by (rule ext) (simp add: norm_lower_def normal_form_def)
  show ?thesis
    unfolding compareParagraphSets_def Let_def n
    using map_nth_filter_index [of reference "\<lambda>v. v \<notin> set (map normal_form target)" normal_form]
    by simp
qed

lemma extra_filter:
  "extraInTarget (compareParagraphSets reference target)
   = filter (\<lambda>p. normal_form p \<notin> set (map normal_form reference)) target"
proof -
  have n: "norm_lower = map normal_form"
    by (rule ext) (simp add: norm_lower_def normal_form_def)
  show ?thesis
    unfolding compareParagraphSets_def Let_def n
    using map_nth_filter_index [of target "\<lambda>v. v \<notin> set (map normal_form reference)" normal_form]
    by simp
qed

lemma filter_not_member_self: "filter (\<lambda>p. f p \<notin> set (map f xs)) xs = []"
  by (simp add: filter_empty_conv)

text \<open>
  C4. \<^verbatim>\<open>missingInTarget\<close> is the sequence of the reference paragraphs whose normal
  form is the normal form of no target paragraph, in the order of the reference and as
  they are written there; \<^verbatim>\<open>extraInTarget\<close> is the same with the two sequences
  exchanged. Comparing a sequence with itself gives two empty lists, and so does
  comparing \<^verbatim>\<open>["Foo  bar"]\<close> with \<^verbatim>\<open>["foo bar"]\<close>.
\<close>

theorem compareParagraphSets_set_difference:
  "missingInTarget (compareParagraphSets reference target)
     = filter (\<lambda>p. normal_form p \<notin> set (map normal_form target)) reference
   \<and> extraInTarget (compareParagraphSets reference target)
     = filter (\<lambda>p. normal_form p \<notin> set (map normal_form reference)) target
   \<and> compareParagraphSets A A = \<lparr>missingInTarget = [], extraInTarget = []\<rparr>
   \<and> compareParagraphSets [''Foo  bar''] [''foo bar'']
     = \<lparr>missingInTarget = [], extraInTarget = []\<rparr>"
proof -
  have "missingInTarget (compareParagraphSets A A) = []"
    unfolding missing_filter by (rule filter_not_member_self)
  moreover have "extraInTarget (compareParagraphSets A A) = []"
    unfolding extra_filter by (rule filter_not_member_self)
  ultimately have same: "compareParagraphSets A A = \<lparr>missingInTarget = [], extraInTarget = []\<rparr>"
    by (cases "compareParagraphSets A A") simp
  have ex: "compareParagraphSets [''Foo  bar''] [''foo bar'']
     = \<lparr>missingInTarget = [], extraInTarget = []\<rparr>"
    by code_simp
  show ?thesis using missing_filter extra_filter same ex by blast
qed

section \<open>The paragraph search\<close>

lemma startsWith_iff: "startsWith s t = (\<exists>r. s = t @ r)"
proof
  assume "startsWith s t"
  then have "s = t @ drop (length t) s"
    unfolding startsWith_def by (metis append_take_drop_id)
  then show "\<exists>r. s = t @ r" ..
next
  assume "\<exists>r. s = t @ r"
  then show "startsWith s t" by (auto simp: startsWith_def)
qed

lemma item_match_iff:
  "item_match token p =
     (startsWith p (token @ '' '') \<or> startsWith p (token @ ''.'') \<or>
      startsWith p (token @ '')'') \<or> p = token)"
  unfolding item_match_def startsWith_iff by auto

lemma findParagraph_loop_none:
  "(\<forall>j. i \<le> j \<and> j < length ps \<longrightarrow> \<not> item_match t (ps ! j)) \<Longrightarrow>
   findParagraph_loop ps t i = \<lparr>result_index = - 1, result_paragraph = []\<rparr>"
proof (induction ps t i rule: findParagraph_loop.induct)
  case (1 ps t i)
  show ?case
  proof (cases "i < length ps")
    case False
    then show ?thesis by (subst findParagraph_loop.simps) simp
  next
    case True
    with 1(2) have n: "\<not> item_match t (ps ! i)" by simp
    have "findParagraph_loop ps t (i + 1) = \<lparr>result_index = - 1, result_paragraph = []\<rparr>"
      using 1(1) [OF True refl] n 1(2) by (simp add: item_match_iff)
    with True n show ?thesis
      by (subst findParagraph_loop.simps) (simp add: item_match_iff)
  qed
qed

lemma findParagraph_loop_first:
  "i \<le> k \<Longrightarrow> k < length ps \<Longrightarrow> item_match t (ps ! k) \<Longrightarrow>
   (\<forall>j. i \<le> j \<and> j < k \<longrightarrow> \<not> item_match t (ps ! j)) \<Longrightarrow>
   findParagraph_loop ps t i = \<lparr>result_index = int k, result_paragraph = ps ! k\<rparr>"
proof (induction ps t i rule: findParagraph_loop.induct)
  case (1 ps t i)
  from 1(2,3) have il: "i < length ps" by simp
  show ?case
  proof (cases "i = k")
    case True
    with il 1(4) show ?thesis
      by (subst findParagraph_loop.simps) (simp add: item_match_iff Let_def)
  next
    case False
    with 1(2) have lt: "i < k" by simp
    with 1(5) have n: "\<not> item_match t (ps ! i)" by simp
    have "findParagraph_loop ps t (i + 1) = \<lparr>result_index = int k, result_paragraph = ps ! k\<rparr>"
      using 1(1) [OF il refl] n lt 1(3,4,5) by (simp add: item_match_iff)
    with il n show ?thesis
      by (subst findParagraph_loop.simps) (simp add: item_match_iff)
  qed
qed

text \<open>
  The first implementation scans the paragraphs from the first on. When no paragraph is
  the trimmed item number followed by a space, a dot or a closing parenthesis, or the
  trimmed item number itself, the result is the index \<open>- 1\<close> and the empty paragraph.
  Otherwise the result is the index and the text of the first such paragraph: a
  paragraph that fails the test is never returned.
\<close>

theorem findParagraphByItemNumber_first_match:
  "((\<forall>j < length ps. \<not> item_match (trim item) (ps ! j)) \<longrightarrow>
      findParagraphByItemNumber ps item = \<lparr>result_index = - 1, result_paragraph = []\<rparr>)
   \<and> (k < length ps \<and> item_match (trim item) (ps ! k) \<and>
        (\<forall>j < k. \<not> item_match (trim item) (ps ! j)) \<longrightarrow>
      findParagraphByItemNumber ps item = \<lparr>result_index = int k, result_paragraph = ps ! k\<rparr>)"
  unfolding findParagraphByItemNumber_def Let_def
  using findParagraph_loop_none [of 0 ps "trim item"]
    findParagraph_loop_first [of 0 k ps "trim item"]
  by simp

theorem findParagraphByItemNumber_first_match_witness:
  "findParagraphByItemNumber [''10 a'', ''1.1 b'', ''1'', ''1 x''] '' 1 ''
     = \<lparr>result_index = 1, result_paragraph = ''1.1 b''\<rparr>
   \<and> findParagraphByItemNumber [''10 a'', ''11 b''] '' 1 ''
     = \<lparr>result_index = - 1, result_paragraph = []\<rparr>"
proof -
  have t: "trim '' 1 '' = ''1''" by code_simp
  have a: "\<forall>j < length [''10 a'', ''11 b'']. \<not> item_match (trim '' 1 '') ([''10 a'', ''11 b''] ! j)"
    by (simp add: t item_match_iff startsWith_def less_Suc_eq)
  have b: "(1::nat) < length [''10 a'', ''1.1 b'', ''1'', ''1 x''] \<and>
           item_match (trim '' 1 '') ([''10 a'', ''1.1 b'', ''1'', ''1 x''] ! 1) \<and>
           (\<forall>j < 1. \<not> item_match (trim '' 1 '') ([''10 a'', ''1.1 b'', ''1'', ''1 x''] ! j))"
    by (simp add: t item_match_iff startsWith_def)
  from a b
    findParagraphByItemNumber_first_match [of "[''10 a'', ''11 b'']" "'' 1 ''"]
    findParagraphByItemNumber_first_match [of "[''10 a'', ''1.1 b'', ''1'', ''1 x'']" "'' 1 ''" 1]
  show ?thesis by simp
qed

text \<open>
  C7. The claim holds of the first implementation, as shown above, and fails on the
  second one: for the paragraphs \<^verbatim>\<open>["10 a", "11 b"]\<close> and the item number \<^verbatim>\<open>" 1 "\<close> the
  second implementation returns the index 0 and the paragraph \<^verbatim>\<open>10 a\<close>, which starts with
  the search term \<^verbatim>\<open>1\<close> but is neither the item number followed by a space, a dot or a
  closing parenthesis nor the item number itself; the first implementation returns the
  index \<open>- 1\<close> and the empty paragraph there.
\<close>

theorem findParagraphByItemNumber2_prefix:
  "findParagraphByItemNumber2 [''10 a'', ''11 b''] '' 1 ''
     = \<lparr>result_index = 0, result_paragraph = ''10 a''\<rparr>
   \<and> \<not> item_match (trim '' 1 '') ''10 a''
   \<and> findParagraphByItemNumber [''10 a'', ''11 b''] '' 1 ''
     = \<lparr>result_index = - 1, result_paragraph = []\<rparr>"
proof -
  have a: "findParagraphByItemNumber2 [''10 a'', ''11 b''] '' 1 ''
     = \<lparr>result_index = 0, result_paragraph = ''10 a''\<rparr>"
    by code_simp
  have t: "trim '' 1 '' = ''1''" by code_simp
  have b: "\<not> item_match (trim '' 1 '') ''10 a''"
    by (simp add: t item_match_iff startsWith_def)
  have c: "findParagraphByItemNumber [''10 a'', ''11 b''] '' 1 ''
     = \<lparr>result_index = - 1, result_paragraph = []\<rparr>"
    by code_simp
  from a b c show ?thesis by blast
qed

section \<open>The numbering check as a scan\<close>

lemma digit_not_ws: "is_digit c \<Longrightarrow> \<not> is_ws c"
  by (auto simp: is_digit_def is_ws_def)

lemma dropWhile_all_append:
  "(\<forall>x \<in> set xs. P x) \<Longrightarrow> ys = [] \<or> \<not> P (hd ys) \<Longrightarrow> dropWhile P (xs @ ys) = ys"
proof (induction xs)
  case Nil
  then show ?case by (cases ys) auto
next
  case (Cons x xs)
  then show ?case by simp
qed

lemma takeWhile_all_append:
  "(\<forall>x \<in> set xs. P x) \<Longrightarrow> ys = [] \<or> \<not> P (hd ys) \<Longrightarrow> takeWhile P (xs @ ys) = xs"
proof (induction xs)
  case Nil
  then show ?case by (cases ys) auto
next
  case (Cons x xs)
  then show ?case by simp
qed

lemma match_flat_marker: "flat_marker p m \<Longrightarrow> match_flat p = Some m"
proof -
  assume "flat_marker p m"
  then obtain w d c r where p: "p = w @ m @ d # c # r" and w: "\<forall>x \<in> set w. is_ws x"
    and ne: "m \<noteq> []" and m: "\<forall>x \<in> set m. is_digit x"
    and d: "d = CHR ''.'' \<or> d = CHR '')''" and c: "is_ws c"
    unfolding flat_marker_def by blast
  from ne m have "\<not> is_ws (hd (m @ d # c # r))" by (cases m) (auto dest: digit_not_ws)
  with w have s1: "dropWhile is_ws p = m @ d # c # r"
    unfolding p by (intro dropWhile_all_append) auto
  from d have nd: "\<not> is_digit d" by (auto simp: is_digit_def)
  then have t: "takeWhile is_digit (m @ d # c # r) = m"
    using m by (intro takeWhile_all_append) auto
  from nd have dr: "dropWhile is_digit (m @ d # c # r) = d # c # r"
    using m by (intro dropWhile_all_append) auto
  show ?thesis unfolding match_flat_def Let_def s1 t dr using ne d c by auto
qed

lemma flat_marker_match: "match_flat p = Some m \<Longrightarrow> flat_marker p m"
proof -
  assume a: "match_flat p = Some m"
  let ?s1 = "dropWhile is_ws p"
  let ?s2 = "dropWhile is_digit ?s1"
  from a have m: "m = takeWhile is_digit ?s1" and ne: "m \<noteq> []"
    by (auto simp: match_flat_def Let_def split: if_splits list.splits)
  from a obtain d c r where s2: "?s2 = d # c # r"
    and d: "d = CHR ''.'' \<or> d = CHR '')''" and c: "is_ws c"
    by (auto simp: match_flat_def Let_def split: if_splits list.splits)
  have "p = takeWhile is_ws p @ ?s1" by simp
  also have "?s1 = m @ ?s2" unfolding m by simp
  finally have "p = takeWhile is_ws p @ m @ d # c # r" unfolding s2 .
  moreover have "\<forall>x \<in> set (takeWhile is_ws p). is_ws x" by (auto dest: set_takeWhileD)
  moreover have "\<forall>x \<in> set m. is_digit x" unfolding m by (auto dest: set_takeWhileD)
  ultimately show ?thesis unfolding flat_marker_def using ne d c by blast
qed

lemma match_flat_digit_group: "match_flat p = Some m \<Longrightarrow> digit_group m"
  using flat_marker_match [of p m] by (auto simp: flat_marker_def digit_group_def list_all_iff)

lemma parseInt_digit_group:
  "digit_group ds \<Longrightarrow> parseInt J ds = number_of J (int (digits_value ds))"
proof -
  assume g: "digit_group ds"
  then obtain c cs where ds: "ds = c # cs" and c: "is_digit c" and all: "\<forall>x \<in> set ds. is_digit x"
    by (cases ds) (auto simp: digit_group_def list_all_iff)
  from c have nw: "\<not> is_ws c" by (rule digit_not_ws)
  from c have ns: "c \<noteq> CHR ''-'' \<and> c \<noteq> CHR ''+''" by (auto simp: is_digit_def)
  have t: "takeWhile is_digit ds = ds" using all by (simp add: takeWhile_eq_all_conv)
  show ?thesis
    using nw ns t unfolding parseInt_def ds by (simp add: Let_def)
qed

lemma parseInt_small:
  "digit_group ds \<Longrightarrow> digits_value ds < 9007199254740992 \<Longrightarrow>
   parseInt J ds = Small (int (digits_value ds))"
  by (simp add: parseInt_digit_group number_of_def)

lemma digit_group_literal [simp]:
  "digit_group (c # cs) = (is_digit c \<and> (cs = [] \<or> digit_group cs))"
  by (auto simp: digit_group_def)

lemma is_digit_literal [simp]:
  "is_digit CHR ''0''" "is_digit CHR ''1''" "is_digit CHR ''2''" "is_digit CHR ''3''"
  "is_digit CHR ''4''" "is_digit CHR ''5''" "is_digit CHR ''6''" "is_digit CHR ''7''"
  "is_digit CHR ''8''" "is_digit CHR ''9''"
  by (simp_all add: is_digit_def)

text \<open>The facts that evaluate a number read from a literal run of digits.\<close>

lemmas read_literal = parseInt_small digits_value_def digit_val_def

lemma number_of_not_NaN: "number_of J i \<noteq> NaN"
  by (simp add: number_of_def)

lemma strict_neq_marker:
  "match_flat p = Some m \<Longrightarrow> strict_neq (parseInt J m) e = (parseInt J m \<noteq> e)"
  using parseInt_digit_group [OF match_flat_digit_group, of p m J] number_of_not_NaN [of J]
  by (auto simp: strict_neq_def)

lemma checkNumbering_loop_scan:
  "i \<le> length ps \<Longrightarrow>
   checkNumbering_loop J ps i e issues = issues @ flat_scan J e i (drop i ps)"
proof (induction J ps i e issues rule: checkNumbering_loop.induct)
  case (1 J ps i e issues)
  show ?case
  proof (cases "i < length ps")
    case False
    then show ?thesis by (subst checkNumbering_loop.simps) simp
  next
    case True
    then have d: "drop i ps = ps ! i # drop (i + 1) ps" by (simp add: Cons_nth_drop_Suc)
    from True have le: "i + 1 \<le> length ps" by simp
    show ?thesis
    proof (cases "match_flat (ps ! i)")
      case None
      with True 1(1) [OF True refl None le] show ?thesis
        by (subst checkNumbering_loop.simps) (simp add: d)
    next
      case (Some m)
      note sn = strict_neq_marker [OF Some, of J e]
      show ?thesis
      proof (cases "parseInt J m = e")
        case eq: True
        then have "\<not> strict_neq (parseInt J m) e" using sn by simp
        with eq True Some 1(3) [OF True refl Some refl _ le] show ?thesis
          by (subst checkNumbering_loop.simps) (simp add: d)
      next
        case neq: False
        then have "strict_neq (parseInt J m) e" using sn by simp
        with neq True Some 1(2) [OF True refl Some refl _ le] show ?thesis
          by (subst checkNumbering_loop.simps) (simp add: d Let_def)
      qed
    qed
  qed
qed

text \<open>
  C1. \<^verbatim>\<open>checkNumbering\<close> is the scan that starts with the counter \<open>expected\<close> at 1 and
  the index at 0. A paragraph has a marker exactly when it is, after white space if any,
  a run of one or more digits, then a dot or a closing parenthesis, then a white space
  character; the marker found is the number that the digits denote. A paragraph with no
  marker leaves the counter as it is; a marker equal to the counter increments the
  counter; any other marker appends one issue with the index, the marker, the counter
  and the text, and sets the counter to the marker plus one. The sums are the sums of the
  script, whatever the doubles of size \<open>2 ^ 53\<close> or more are. On
  \<^verbatim>\<open>["1. a", "3. b", "4. c"]\<close> the result is the one issue at index 1, found 3, expected 2.
\<close>

theorem checkNumbering_resync:
  "(match_flat p = Some m) = flat_marker p m
   \<and> (flat_marker p m \<longrightarrow> parseInt J m = number_of J (int (digits_value m)))
   \<and> checkNumbering J ps = flat_scan J (Small 1) 0 ps
   \<and> checkNumbering J [''1. a'', ''3. b'', ''4. c'']
     = [\<lparr>issue_index = 1, issue_found = Small 3, issue_expected = Small 2,
         issue_text = ''3. b''\<rparr>]"
proof -
  have a: "(match_flat p = Some m) = flat_marker p m"
    using match_flat_marker flat_marker_match by blast
  have a2: "parseInt J m = number_of J (int (digits_value m))" if "flat_marker p m"
    using that match_flat_marker match_flat_digit_group parseInt_digit_group by blast
  have b: "checkNumbering J ps = flat_scan J (Small 1) 0 ps"
    unfolding checkNumbering_def using checkNumbering_loop_scan [of 0 ps J "Small 1" "[]"]
    by simp
  have m: "match_flat ''1. a'' = Some ''1''" "match_flat ''3. b'' = Some ''3''"
    "match_flat ''4. c'' = Some ''4''"
    by code_simp+
  have v: "parseInt J ''1'' = Small 1" "parseInt J ''3'' = Small 3" "parseInt J ''4'' = Small 4"
    by (simp_all add: read_literal)
  have "flat_scan J (Small 1) 0 [''1. a'', ''3. b'', ''4. c'']
     = [\<lparr>issue_index = 1, issue_found = Small 3, issue_expected = Small 2,
         issue_text = ''3. b''\<rparr>]"
    by (simp add: m v number_of_def)
  then have c: "checkNumbering J [''1. a'', ''3. b'', ''4. c'']
     = [\<lparr>issue_index = 1, issue_found = Small 3, issue_expected = Small 2,
         issue_text = ''3. b''\<rparr>]"
    unfolding checkNumbering_def
    using checkNumbering_loop_scan [of 0 "[''1. a'', ''3. b'', ''4. c'']" J "Small 1" "[]"]
    by simp
  from a a2 b c show ?thesis by blast
qed

theorem checkNumbering_resync_witness:
  "parseInt exact_doubles ''3'' = Small 3
   \<and> checkNumbering exact_doubles [''0. x'', ''y'', '' 1) z'', ''1. a'', ''7. b'']
     = [\<lparr>issue_index = 0, issue_found = Small 0, issue_expected = Small 1,
         issue_text = ''0. x''\<rparr>,
        \<lparr>issue_index = 3, issue_found = Small 1, issue_expected = Small 2,
         issue_text = ''1. a''\<rparr>,
        \<lparr>issue_index = 4, issue_found = Small 7, issue_expected = Small 2,
         issue_text = ''7. b''\<rparr>]"
proof -
  have m: "match_flat ''3. b'' = Some ''3''" by code_simp
  have v: "number_of exact_doubles (int (digits_value ''3'')) = Small 3" by code_simp
  from checkNumbering_resync [of "''3. b''" "''3''" exact_doubles "[]"] m
  have "parseInt exact_doubles ''3'' = number_of exact_doubles (int (digits_value ''3''))"
    by blast
  with v have a: "parseInt exact_doubles ''3'' = Small 3" by simp
  have s: "flat_scan exact_doubles (Small 1) 0 [''0. x'', ''y'', '' 1) z'', ''1. a'', ''7. b'']
     = [\<lparr>issue_index = 0, issue_found = Small 0, issue_expected = Small 1,
         issue_text = ''0. x''\<rparr>,
        \<lparr>issue_index = 3, issue_found = Small 1, issue_expected = Small 2,
         issue_text = ''1. a''\<rparr>,
        \<lparr>issue_index = 4, issue_found = Small 7, issue_expected = Small 2,
         issue_text = ''7. b''\<rparr>]"
    by code_simp
  from checkNumbering_resync [of "[]" "[]" exact_doubles
      "[''0. x'', ''y'', '' 1) z'', ''1. a'', ''7. b'']"]
  have "checkNumbering exact_doubles [''0. x'', ''y'', '' 1) z'', ''1. a'', ''7. b'']
        = flat_scan exact_doubles (Small 1) 0 [''0. x'', ''y'', '' 1) z'', ''1. a'', ''7. b'']"
    by blast
  with s have b: "checkNumbering exact_doubles [''0. x'', ''y'', '' 1) z'', ''1. a'', ''7. b'']
     = [\<lparr>issue_index = 0, issue_found = Small 0, issue_expected = Small 1,
         issue_text = ''0. x''\<rparr>,
        \<lparr>issue_index = 3, issue_found = Small 1, issue_expected = Small 2,
         issue_text = ''1. a''\<rparr>,
        \<lparr>issue_index = 4, issue_found = Small 7, issue_expected = Small 2,
         issue_text = ''7. b''\<rparr>]"
    by simp
  from a b show ?thesis by simp
qed

section \<open>The renumbering as a scan\<close>

lemma renumber_loop_scan:
  "i \<le> length ps \<Longrightarrow>
   renumber_loop J ps i cur out = (scan_path J cur (drop i ps), out @ scan_out J cur (drop i ps))"
proof (induction J ps i cur out rule: renumber_loop.induct)
  case (1 J ps i cur out)
  show ?case
  proof (cases "i < length ps")
    case False
    then show ?thesis by (subst renumber_loop.simps) simp
  next
    case True
    then have d: "drop i ps = ps ! i # drop (i + 1) ps" by (simp add: Cons_nth_drop_Suc)
    from True have le: "i + 1 \<le> length ps" by simp
    show ?thesis
    proof (cases "match_hier (ps ! i)")
      case None
      with True 1(1) [OF True refl None le] show ?thesis
        by (subst renumber_loop.simps) (simp add: d hier_step_def)
    next
      case (Some m)
      obtain n dl r where m: "m = (n, dl, r)" by (cases m) auto
      from True Some m 1(2) [OF True refl Some [unfolded m] refl refl refl refl refl refl refl le]
      show ?thesis
        by (subst renumber_loop.simps) (simp add: d hier_step_def Let_def)
    qed
  qed
qed

lemma length_scan_out: "length (scan_out J c ps) = length ps"
  by (induction ps arbitrary: c) auto

lemma scan_out_append:
  "scan_out J c (xs @ ys) = scan_out J c xs @ scan_out J (scan_path J c xs) ys"
  by (induction xs arbitrary: c) auto

lemma scan_path_append: "scan_path J c (xs @ ys) = scan_path J (scan_path J c xs) ys"
  by (induction xs arbitrary: c) auto

lemma renumberHierarchical_scan: "renumberHierarchical J ps = scan_out J [] ps"
  unfolding renumberHierarchical_def using renumber_loop_scan [of 0 ps J "[]" "[]"] by simp

lemma carried_path_scan: "carried_path J ps = scan_path J [] ps"
  unfolding carried_path_def using renumber_loop_scan [of 0 ps J "[]" "[]"] by simp

lemma renumberHierarchical_nth:
  "renumberHierarchical J (pre @ p # post) ! length pre = snd (hier_step J (carried_path J pre) p)"
  by (simp add: renumberHierarchical_scan carried_path_scan scan_out_append nth_append
      length_scan_out)

lemma carried_path_snoc: "carried_path J (pre @ [p]) = fst (hier_step J (carried_path J pre) p)"
  by (simp add: carried_path_scan scan_path_append)

text \<open>
  The loop over a sequence reaches, at the index where \<open>pre\<close> ends, the path carried
  after \<open>pre\<close> and the output for \<open>pre\<close>.
\<close>

lemma renumber_loop_passes:
  "renumber_loop J (pre @ post) 0 [] []
   = renumber_loop J (pre @ post) (length pre) (carried_path J pre) (renumberHierarchical J pre)"
proof -
  have "renumber_loop J (pre @ post) 0 [] []
        = (scan_path J [] (pre @ post), scan_out J [] (pre @ post))"
    using renumber_loop_scan [of 0 "pre @ post" J "[]" "[]"] by simp
  moreover have "renumber_loop J (pre @ post) (length pre) (carried_path J pre)
          (renumberHierarchical J pre)
        = (scan_path J (carried_path J pre) post,
           renumberHierarchical J pre @ scan_out J (carried_path J pre) post)"
    using renumber_loop_scan [of "length pre" "pre @ post" J "carried_path J pre"
        "renumberHierarchical J pre"] by simp
  ultimately show ?thesis
    by (simp add: scan_path_append scan_out_append carried_path_scan renumberHierarchical_scan)
qed

lemma split_dot_not_Nil: "split_dot s \<noteq> []"
  by (subst split_dot.simps) (simp split: list.splits)

lemma expected_path_not_Nil: "found \<noteq> [] \<Longrightarrow> expected_path J current found \<noteq> []"
  by (auto simp: expected_path_def Let_def)

lemma hier_step_no_match: "match_hier p = None \<Longrightarrow> hier_step J c p = (c, p)"
  by (simp add: hier_step_def)

lemma hier_step_path_not_Nil:
  "match_hier p \<noteq> None \<Longrightarrow> fst (hier_step J c p) \<noteq> []"
  by (auto simp: hier_step_def Let_def expected_path_not_Nil split_dot_not_Nil)

lemma hier_step_keeps_path: "c \<noteq> [] \<Longrightarrow> fst (hier_step J c p) \<noteq> []"
  by (cases "match_hier p") (auto simp: hier_step_no_match hier_step_path_not_Nil)

lemma carried_path_no_match:
  "(\<forall>q \<in> set pre. match_hier q = None) \<Longrightarrow> carried_path J pre = []"
proof (induction pre rule: rev_induct)
  case Nil
  show ?case by (simp add: carried_path_scan)
next
  case (snoc q pre)
  then show ?case by (simp add: carried_path_snoc hier_step_no_match)
qed

lemma carried_path_match:
  "\<exists>q \<in> set pre. match_hier q \<noteq> None \<Longrightarrow> carried_path J pre \<noteq> []"
proof (induction pre rule: rev_induct)
  case Nil
  then show ?case by simp
next
  case (snoc q pre)
  show ?case
  proof (cases "match_hier q")
    case None
    with snoc have "carried_path J pre \<noteq> []" by auto
    then show ?thesis by (simp add: carried_path_snoc hier_step_keeps_path)
  next
    case (Some m)
    then show ?thesis by (simp add: carried_path_snoc hier_step_path_not_Nil)
  qed
qed

lemma expected_path_corrected:
  "current \<noteq> [] \<Longrightarrow> found \<noteq> [] \<Longrightarrow>
   expected_path J current found = corrected_path J current (length found)"
proof -
  assume c: "current \<noteq> []" and f: "found \<noteq> []"
  have a: "take (length current - 1) current = butlast current"
    by (simp add: butlast_conv_take)
  have b: "current ! (length current - 1) = last current"
    using c by (simp add: last_conv_nth)
  have d: "length found < length current \<Longrightarrow>
           take (length found - 1) current = butlast (take (length found) current)"
    by (simp add: butlast_conv_take min_def)
  have e: "current ! (length found - 1) = last (take (length found) current)"
    if "length found < length current"
  proof -
    from f that have "take (length found) current \<noteq> []" by auto
    then have "last (take (length found) current)
               = take (length found) current ! (length (take (length found) current) - 1)"
      by (rule last_conv_nth)
    also have "\<dots> = current ! (length found - 1)" using f that by (simp add: min_def)
    finally show ?thesis by simp
  qed
  show ?thesis
    using c a b d e by (auto simp: expected_path_def corrected_path_def Let_def)
qed

section \<open>A second run of the renumbering\<close>

lemma digit_char_props:
  "k < 10 \<Longrightarrow> is_digit (digit_char k) \<and> digit_val (digit_char k) = k"
proof -
  assume "k < 10"
  then have "k \<in> {0, 1, 2, 3, 4, 5, 6, 7, 8, 9}" by auto
  then show ?thesis
    by (auto simp: digit_char_def is_digit_def digit_val_def)
qed

lemma nat_to_string_digits: "\<forall>c \<in> set (nat_to_string n). is_digit c"
proof (induction n rule: nat_to_string.induct)
  case (1 n)
  show ?case
  proof (cases "n < 10")
    case True
    then show ?thesis by (subst nat_to_string.simps) (simp add: digit_char_props)
  next
    case False
    with 1 show ?thesis by (subst nat_to_string.simps) (simp add: digit_char_props)
  qed
qed

lemma nat_to_string_not_Nil: "nat_to_string n \<noteq> []"
  by (subst nat_to_string.simps) simp

lemma digits_value_snoc: "digits_value (ds @ [c]) = 10 * digits_value ds + digit_val c"
  by (simp add: digits_value_def)

lemma digits_value_nat_to_string: "digits_value (nat_to_string n) = n"
proof (induction n rule: nat_to_string.induct)
  case (1 n)
  show ?case
  proof (cases "n < 10")
    case True
    then show ?thesis
      by (subst nat_to_string.simps) (simp add: digits_value_def digit_char_props)
  next
    case False
    with 1 show ?thesis
      by (subst nat_to_string.simps) (simp add: digits_value_snoc digit_char_props)
  qed
qed

lemma digit_not_dot: "is_digit c \<Longrightarrow> c \<noteq> CHR ''.''"
  by (auto simp: is_digit_def)

lemma digit_group_nat_to_string: "digit_group (nat_to_string n)"
  using nat_to_string_digits [of n]
  by (simp add: digit_group_def nat_to_string_not_Nil list_all_iff)

lemma split_dot_no_dot: "CHR ''.'' \<notin> set s \<Longrightarrow> split_dot s = [s]"
proof -
  assume "CHR ''.'' \<notin> set s"
  then have e: "dropWhile (\<lambda>c. c \<noteq> CHR ''.'') s = []" by auto
  show ?thesis by (subst split_dot.simps) (simp only: e list.case)
qed

lemma split_dot_group:
  "CHR ''.'' \<notin> set g \<Longrightarrow> split_dot (g @ CHR ''.'' # r) = g # split_dot r"
proof -
  assume n: "CHR ''.'' \<notin> set g"
  then have a: "dropWhile (\<lambda>c. c \<noteq> CHR ''.'') (g @ CHR ''.'' # r) = CHR ''.'' # r"
    by (intro dropWhile_all_append) auto
  from n have b: "takeWhile (\<lambda>c. c \<noteq> CHR ''.'') (g @ CHR ''.'' # r) = g"
    by (intro takeWhile_all_append) auto
  show ?thesis by (subst split_dot.simps) (simp add: a b)
qed

lemma digit_group_no_dot: "digit_group g \<Longrightarrow> CHR ''.'' \<notin> set g"
  by (auto simp: digit_group_def list_all_iff dest: digit_not_dot)

lemma split_dot_join_dot:
  "gs \<noteq> [] \<Longrightarrow> list_all digit_group gs \<Longrightarrow> split_dot (join_dot gs) = gs"
proof (induction gs rule: join_dot.induct)
  case 1
  then show ?case by simp
next
  case (2 x)
  then show ?case by (simp add: split_dot_no_dot digit_group_no_dot)
next
  case (3 x y ys)
  then show ?case by (simp add: split_dot_group digit_group_no_dot)
qed

text \<open>The text of the groups after the first one.\<close>

lemma join_dot_Cons: "join_dot (g # gs) = g @ concat (map (\<lambda>x. CHR ''.'' # x) gs)"
  by (induction gs arbitrary: g) auto

lemma more_groups_stop:
  "\<not> (\<exists>d r. t = CHR ''.'' # d # r \<and> is_digit d) \<Longrightarrow> more_groups t = ([], t)"
  by (subst more_groups.simps) (auto split: list.splits)

lemma more_groups_join:
  "list_all digit_group gs \<Longrightarrow> \<not> (\<exists>d r. t = CHR ''.'' # d # r \<and> is_digit d) \<Longrightarrow>
   t = [] \<or> \<not> is_digit (hd t) \<Longrightarrow>
   more_groups (concat (map (\<lambda>x. CHR ''.'' # x) gs) @ t)
   = (concat (map (\<lambda>x. CHR ''.'' # x) gs), t)"
proof (induction gs)
  case Nil
  then show ?case by (simp add: more_groups_stop)
next
  case (Cons g gs)
  let ?tail = "concat (map (\<lambda>x. CHR ''.'' # x) gs) @ t"
  from Cons.prems(1) have g: "g \<noteq> []" and gd: "\<forall>c \<in> set g. is_digit c"
    and gs: "list_all digit_group gs"
    by (auto simp: digit_group_def list_all_iff)
  from g obtain d r where gdr: "g = d # r" by (cases g) auto
  with gd have d: "is_digit d" and r: "\<forall>c \<in> set r. is_digit c" by auto
  have stop: "?tail = [] \<or> \<not> is_digit (hd ?tail)"
  proof (cases gs)
    case Nil
    with Cons.prems(3) show ?thesis by simp
  next
    case (Cons a list)
    then show ?thesis by (simp add: is_digit_def)
  qed
  have tw: "takeWhile is_digit (r @ ?tail) = r"
    using r stop by (rule takeWhile_all_append)
  have dw: "dropWhile is_digit (r @ ?tail) = ?tail"
    using r stop by (rule dropWhile_all_append)
  have ih: "more_groups ?tail = (concat (map (\<lambda>x. CHR ''.'' # x) gs), t)"
    using Cons.IH [OF gs Cons.prems(2) Cons.prems(3)] .
  have "more_groups (CHR ''.'' # d # r @ ?tail)
        = (CHR ''.'' # d # r @ concat (map (\<lambda>x. CHR ''.'' # x) gs), t)"
    by (subst more_groups.simps) (simp add: d tw dw ih)
  then show ?case by (simp add: gdr)
qed

lemma tidy_ws_space: "tidy s \<Longrightarrow> c \<in> set s \<Longrightarrow> is_ws c \<Longrightarrow> c = CHR '' ''"
  by (induction s rule: tidy.induct) auto

lemma tidy_no_line_terminator: "tidy s \<Longrightarrow> c \<in> set s \<Longrightarrow> \<not> is_line_terminator c"
proof
  assume t: "tidy s" and c: "c \<in> set s" and l: "is_line_terminator c"
  from l have w: "is_ws c" by (auto simp: is_line_terminator_def is_ws_def)
  with t c have "c = CHR '' ''" by (rule tidy_ws_space)
  with l show False by (simp add: is_line_terminator_def)
qed

lemma match_hier_rendered:
  assumes ne: "gs \<noteq> []" and gs: "list_all digit_group gs"
    and d: "d = [] \<or> d = ''.'' \<or> d = '')''"
    and t: "tidy r" and tr: "trimmed r"
  shows "match_hier (join_dot gs @ d @ '' '' @ r) = Some (join_dot gs, d, r)"
proof -
  from ne obtain g gs' where g: "gs = g # gs'" by (cases gs) auto
  let ?G = "concat (map (\<lambda>x. CHR ''.'' # x) gs')"
  let ?T = "d @ '' '' @ r"
  have j: "join_dot gs = g @ ?G" unfolding g by (rule join_dot_Cons)
  from gs g have gg: "g \<noteq> []" and gd: "\<forall>c \<in> set g. is_digit c"
    and gs': "list_all digit_group gs'"
    by (auto simp: digit_group_def list_all_iff)
  have stop1: "\<not> (\<exists>x y. ?T = CHR ''.'' # x # y \<and> is_digit x)"
    using d by (auto simp: is_digit_def)
  have stop2: "?T = [] \<or> \<not> is_digit (hd ?T)"
    using d by (auto simp: is_digit_def)
  have stop3: "?G @ ?T = [] \<or> \<not> is_digit (hd (?G @ ?T))"
  proof (cases gs')
    case Nil
    with stop2 show ?thesis by simp
  next
    case (Cons a list)
    then show ?thesis by (simp add: is_digit_def)
  qed
  have "\<not> is_ws (hd (g @ ?G @ ?T))" using gg gd by (cases g) (auto dest: digit_not_ws)
  then have s1: "dropWhile is_ws (g @ ?G @ ?T) = g @ ?G @ ?T"
    using gg by (cases g) auto
  have first: "takeWhile is_digit (g @ ?G @ ?T) = g"
    using gd stop3 by (rule takeWhile_all_append)
  have after: "dropWhile is_digit (g @ ?G @ ?T) = ?G @ ?T"
    using gd stop3 by (rule dropWhile_all_append)
  have mg: "more_groups (?G @ ?T) = (?G, ?T)"
    using gs' stop1 stop2 by (rule more_groups_join)
  have rest: "dropWhile is_ws r = r"
    using tr by (cases r) (auto simp: trimmed_def)
  have nl: "\<not> (\<exists>c \<in> set r. is_line_terminator c)"
    using t by (auto dest: tidy_no_line_terminator)
  have "match_hier (g @ ?G @ ?T) = Some (g @ ?G, d, r)"
    unfolding match_hier_def Let_def s1 first after mg
    using d gg rest nl by auto
  then show ?thesis by (simp add: j)
qed

lemma match_hier_delim:
  "match_hier p = Some (n, d, r) \<Longrightarrow> d = [] \<or> d = ''.'' \<or> d = '')''"
  by (auto simp: match_hier_def Let_def split: if_splits list.splits prod.splits)

lemma expected_path_length:
  "current \<noteq> [] \<Longrightarrow> found \<noteq> [] \<Longrightarrow> length (expected_path J current found) = length found"
proof -
  assume "current \<noteq> []" and "found \<noteq> []"
  then obtain m n where "length current = Suc m" and "length found = Suc n"
    by (cases current; cases found) auto
  then show ?thesis by (auto simp: expected_path_def Let_def min_def)
qed

lemma expected_path_depth_only:
  "current \<noteq> [] \<Longrightarrow> length x = length y \<Longrightarrow>
   expected_path J current x = expected_path J current y"
  by (simp add: expected_path_def)

lemma expected_path_again:
  "found \<noteq> [] \<Longrightarrow>
   expected_path J current (expected_path J current found) = expected_path J current found"
proof (cases "current = []")
  case True
  then show ?thesis by (simp add: expected_path_def)
next
  case False
  assume f: "found \<noteq> []"
  from False f have "length (expected_path J current found) = length found"
    by (rule expected_path_length)
  with False show ?thesis by (rule expected_path_depth_only)
qed

lemma expected_path_first: "expected_path J [] found = found"
  by (simp add: expected_path_def)

text \<open>The elements of a corrected path.\<close>

lemma expected_path_elements:
  assumes "x \<in> set (expected_path J c found)"
  shows "x \<in> set found \<or> x \<in> set c \<or> x = Small 1 \<or> (\<exists>y \<in> set c. x = num_add J y 1)"
proof (cases "c = []")
  case True
  with assms show ?thesis by (simp add: expected_path_def)
next
  case False
  then obtain m where m: "length c = Suc m" by (cases c) auto
  have n: "k < length c \<Longrightarrow> c ! k \<in> set c" for k by simp
  from assms False m n [of m] n [of "length found - 1"] show ?thesis
    by (auto simp: expected_path_def Let_def dest: in_set_takeD split: if_splits)
qed

lemma expected_path_elements_later:
  assumes "c \<noteq> []" and "x \<in> set (expected_path J c found)"
  shows "x \<in> set c \<or> x = Small 1 \<or> (\<exists>y \<in> set c. x = num_add J y 1)"
proof -
  from assms(1) obtain m where m: "length c = Suc m" by (cases c) auto
  have n: "k < length c \<Longrightarrow> c ! k \<in> set c" for k by simp
  from assms m n [of m] n [of "length found - 1"] show ?thesis
    by (auto simp: expected_path_def Let_def dest: in_set_takeD split: if_splits)
qed

text \<open>Printable and plain numbers.\<close>

lemma blocks_NaN: "blocks ''NaN''"
  unfolding blocks_def
  by (rule exI [of _ "[]"], rule exI [of _ "CHR ''N''"], rule exI [of _ "''aN''"])
    (simp add: is_digit_def is_ws_def)

lemma blocks_minus: "blocks (CHR ''-'' # t)"
  unfolding blocks_def
  by (rule exI [of _ "[]"], rule exI [of _ "CHR ''-''"], rule exI [of _ t])
    (simp add: is_digit_def is_ws_def)

lemma plain_Small: "\<bar>i\<bar> < 9007199254740992 \<Longrightarrow> plain J (Small i)"
  by (cases "0 \<le> i") (auto simp: plain_def blocks_minus)

lemma plain_number_of: "prints_back J \<Longrightarrow> plain J (number_of J i)"
  by (auto simp: number_of_def prints_back_def plain_Small)

lemma plain_parseInt: "prints_back J \<Longrightarrow> digit_group ds \<Longrightarrow> plain J (parseInt J ds)"
  by (simp add: parseInt_digit_group plain_number_of)

lemma plain_num_add: "prints_back J \<Longrightarrow> plain J (num_add J x 1)"
proof (cases x)
  case NaN
  then show ?thesis by (simp add: plain_def blocks_NaN)
next
  case (Small i)
  assume "prints_back J"
  with Small show ?thesis by (simp add: plain_number_of)
next
  case (Big b)
  assume "prints_back J"
  with Big show ?thesis by (simp add: prints_back_def)
qed

lemma printable_num_add: "prints_back J \<Longrightarrow> printable J x \<Longrightarrow> printable J (num_add J x 1)"
  by (simp add: prints_back_def)

lemma printable_text: "printable J x \<Longrightarrow> digit_group (number_to_string J x)"
  by (cases x) (auto simp: digit_group_nat_to_string)

lemma printable_read_back:
  "prints_back J \<Longrightarrow> printable J x \<Longrightarrow> parseInt J (number_to_string J x) = x"
proof (cases x)
  case NaN
  assume "printable J x"
  with NaN show ?thesis by simp
next
  case (Small i)
  assume "printable J x"
  with Small have i: "0 \<le> i" "i < 9007199254740992" by simp_all
  then have "parseInt J (nat_to_string (nat i)) = number_of J (int (nat i))"
    by (simp add: parseInt_digit_group digit_group_nat_to_string digits_value_nat_to_string)
  with i Small show ?thesis by (simp add: number_of_def)
next
  case (Big b)
  assume "prints_back J" and "printable J x"
  with Big show ?thesis by (simp add: prints_back_def)
qed

lemma plain_blocks: "plain J x \<Longrightarrow> \<not> printable J x \<Longrightarrow> blocks (number_to_string J x)"
  by (simp add: plain_def)

lemma plain_expected_path:
  assumes J: "prints_back J" and c: "list_all (plain J) c" and f: "list_all (plain J) found"
  shows "list_all (plain J) (expected_path J c found)"
proof -
  have "plain J x" if "x \<in> set (expected_path J c found)" for x
    using expected_path_elements [OF that] c f plain_num_add [OF J] plain_Small [of 1 J]
    by (auto simp: list_all_iff)
  then show ?thesis by (simp add: list_all_iff)
qed

lemma printable_expected_path:
  assumes J: "prints_back J" and c: "list_all (printable J) c" and ne: "c \<noteq> []"
  shows "list_all (printable J) (expected_path J c found)"
proof -
  have "printable J x" if "x \<in> set (expected_path J c found)" for x
    using expected_path_elements_later [OF ne that] c printable_num_add [OF J]
    by (auto simp: list_all_iff)
  then show ?thesis by (simp add: list_all_iff)
qed

section \<open>The pattern of a hierarchical numbering\<close>

lemma more_groups_shape:
  "more_groups s = (g, s') \<Longrightarrow>
   s = g @ s' \<and> (\<exists>gs. g = concat (map (\<lambda>x. CHR ''.'' # x) gs) \<and> list_all digit_group gs)"
proof (induction s arbitrary: g s' rule: more_groups.induct)
  case (1 s)
  show ?case
  proof (cases "\<exists>d r. s = CHR ''.'' # d # r \<and> is_digit d")
    case False
    then have "more_groups s = ([], s)" by (rule more_groups_stop)
    with 1(2) have "g = []" and "s' = s" by simp_all
    then show ?thesis by (auto intro: exI [of _ "[]"])
  next
    case True
    then obtain d r where s: "s = CHR ''.'' # d # r" and d: "is_digit d" by blast
    obtain g' t where m: "more_groups (dropWhile is_digit r) = (g', t)"
      by (cases "more_groups (dropWhile is_digit r)") auto
    have ih: "dropWhile is_digit r = g' @ t
       \<and> (\<exists>gs. g' = concat (map (\<lambda>x. CHR ''.'' # x) gs) \<and> list_all digit_group gs)"
      using 1(1) [of "CHR ''.''" "d # r" d r g' t] s d m by simp
    then obtain gs where gs: "g' = concat (map (\<lambda>x. CHR ''.'' # x) gs)"
      and dg: "list_all digit_group gs" by blast
    have "more_groups s = (CHR ''.'' # d # takeWhile is_digit r @ g', t)"
      unfolding s by (subst more_groups.simps) (simp add: d m)
    with 1(2) have g: "g = CHR ''.'' # d # takeWhile is_digit r @ g'" and t: "s' = t"
      by simp_all
    have "r = takeWhile is_digit r @ dropWhile is_digit r" by simp
    with ih have "r = takeWhile is_digit r @ g' @ t" by simp
    then have a: "s = g @ s'" unfolding s g t by simp
    have "digit_group (d # takeWhile is_digit r)"
      using d by (auto simp: digit_group_def list_all_iff dest: set_takeWhileD)
    with dg have b: "list_all digit_group ((d # takeWhile is_digit r) # gs)" by simp
    have c: "g = concat (map (\<lambda>x. CHR ''.'' # x) ((d # takeWhile is_digit r) # gs))"
      unfolding g gs by simp
    from a b c show ?thesis by blast
  qed
qed

lemma match_hier_prefixed: "match_hier p = Some (n, d, r) \<Longrightarrow> hier_prefixed p"
proof -
  assume a: "match_hier p = Some (n, d, r)"
  let ?s1 = "dropWhile is_ws p"
  let ?first = "takeWhile is_digit ?s1"
  obtain g s2 where m: "more_groups (dropWhile is_digit ?s1) = (g, s2)"
    by (cases "more_groups (dropWhile is_digit ?s1)") auto
  let ?s3 = "drop (length d) s2"
  from a m have n: "n = ?first @ g" and f: "?first \<noteq> []"
    and d: "d = (case s2 of c # r \<Rightarrow> if c = CHR ''.'' \<or> c = CHR '')'' then [c] else [] | [] \<Rightarrow> [])"
    and s3: "?s3 \<noteq> []" and w: "is_ws (hd ?s3)" and r: "r = dropWhile is_ws ?s3"
    and nl: "\<not> (\<exists>c \<in> set r. is_line_terminator c)"
    by (auto simp: match_hier_def Let_def split: if_splits)
  from more_groups_shape [OF m] obtain gs where
    sh: "dropWhile is_digit ?s1 = g @ s2" and gs: "g = concat (map (\<lambda>x. CHR ''.'' # x) gs)"
    and dg: "list_all digit_group gs" by blast
  have d3: "d = [] \<or> d = ''.'' \<or> d = '')''" using d by (auto split: list.splits if_splits)
  have s2: "s2 = d @ ?s3" using d by (auto split: list.splits if_splits)
  have fg: "digit_group ?first"
    using f by (auto simp: digit_group_def list_all_iff dest: set_takeWhileD)
  have j: "join_dot (?first # gs) = ?first @ g" unfolding gs by (rule join_dot_Cons)
  have "p = takeWhile is_ws p @ ?s1" by simp
  also have "?s1 = ?first @ dropWhile is_digit ?s1" by simp
  also have "dropWhile is_digit ?s1 = g @ d @ ?s3" using sh s2 by simp
  also have "?s3 = takeWhile is_ws ?s3 @ r" unfolding r by simp
  finally have p: "p = takeWhile is_ws p @ join_dot (?first # gs) @ d @ takeWhile is_ws ?s3 @ r"
    unfolding j by simp
  have w1: "list_all is_ws (takeWhile is_ws p)"
    by (auto simp: list_all_iff dest: set_takeWhileD)
  have w2: "list_all is_ws (takeWhile is_ws ?s3)"
    by (auto simp: list_all_iff dest: set_takeWhileD)
  have w2n: "takeWhile is_ws ?s3 \<noteq> []" using s3 w by (cases ?s3) auto
  have nl': "list_all (\<lambda>c. \<not> is_line_terminator c) r" using nl by (auto simp: list_all_iff)
  have g2: "list_all digit_group (?first # gs)" using fg dg by simp
  show ?thesis
    unfolding hier_prefixed_def
    using p w1 g2 d3 w2n w2 nl' by blast
qed

lemma prefixed_match_hier: "hier_prefixed p \<Longrightarrow> match_hier p \<noteq> None"
proof -
  assume "hier_prefixed p"
  then obtain w gs d w2 r where p: "p = w @ join_dot gs @ d @ w2 @ r"
    and w: "list_all is_ws w" and ne: "gs \<noteq> []" and gs: "list_all digit_group gs"
    and d: "d = [] \<or> d = ''.'' \<or> d = '')''" and w2n: "w2 \<noteq> []"
    and w2: "list_all is_ws w2" and nl: "list_all (\<lambda>c. \<not> is_line_terminator c) r"
    unfolding hier_prefixed_def by blast
  from ne obtain g gs' where g: "gs = g # gs'" by (cases gs) auto
  let ?G = "concat (map (\<lambda>x. CHR ''.'' # x) gs')"
  let ?T = "d @ w2 @ r"
  have j: "join_dot gs = g @ ?G" unfolding g by (rule join_dot_Cons)
  from gs g have gg: "g \<noteq> []" and gd: "\<forall>c \<in> set g. is_digit c"
    and gs': "list_all digit_group gs'"
    by (auto simp: digit_group_def list_all_iff)
  from w2n obtain x w2' where w2c: "w2 = x # w2'" by (cases w2) auto
  with w2 have x: "is_ws x" by simp
  then have xd: "\<not> is_digit x" using digit_not_ws by blast
  have x2: "x \<noteq> CHR ''.'' \<and> x \<noteq> CHR '')''" using x by (auto simp: is_ws_def)
  have stop1: "\<not> (\<exists>a b. ?T = CHR ''.'' # a # b \<and> is_digit a)"
    using d xd x2 w2c by auto
  have stop2: "?T = [] \<or> \<not> is_digit (hd ?T)"
    using d xd w2c by (auto simp: is_digit_def)
  have stop3: "?G @ ?T = [] \<or> \<not> is_digit (hd (?G @ ?T))"
  proof (cases gs')
    case Nil
    with stop2 show ?thesis by simp
  next
    case (Cons a list)
    then show ?thesis by (simp add: is_digit_def)
  qed
  have "\<not> is_ws (hd (g @ ?G @ ?T))" using gg gd by (cases g) (auto dest: digit_not_ws)
  moreover have "\<forall>c \<in> set w. is_ws c" using w by (simp add: list_all_iff)
  ultimately have s1: "dropWhile is_ws (w @ g @ ?G @ ?T) = g @ ?G @ ?T"
    by (intro dropWhile_all_append) auto
  have first: "takeWhile is_digit (g @ ?G @ ?T) = g"
    using gd stop3 by (rule takeWhile_all_append)
  have after: "dropWhile is_digit (g @ ?G @ ?T) = ?G @ ?T"
    using gd stop3 by (rule dropWhile_all_append)
  have mg: "more_groups (?G @ ?T) = (?G, ?T)"
    using gs' stop1 stop2 by (rule more_groups_join)
  have nl1: "\<not> (\<exists>c \<in> set (dropWhile is_ws r). is_line_terminator c)"
    using nl by (auto simp: list_all_iff dest: set_dropWhileD)
  have dw: "dropWhile is_ws (w2 @ r) = dropWhile is_ws r"
    using w2 by (induction w2) auto
  have "match_hier (w @ g @ ?G @ ?T) = Some (g @ ?G, d, dropWhile is_ws r)"
    unfolding match_hier_def Let_def s1 first after mg
    using d gg x x2 nl1 dw w2c by auto
  then show ?thesis unfolding p j by simp
qed

lemma match_hier_groups:
  assumes a: "match_hier p = Some (n, d, r)"
  shows "\<exists>gs. gs \<noteq> [] \<and> list_all digit_group gs \<and> n = join_dot gs"
proof -
  let ?s1 = "dropWhile is_ws p"
  let ?first = "takeWhile is_digit ?s1"
  obtain g s2 where m: "more_groups (dropWhile is_digit ?s1) = (g, s2)"
    by (cases "more_groups (dropWhile is_digit ?s1)") auto
  from a m have n: "n = ?first @ g" and f: "?first \<noteq> []"
    by (auto simp: match_hier_def Let_def split: if_splits)
  from more_groups_shape [OF m] obtain gs where
    gs: "g = concat (map (\<lambda>x. CHR ''.'' # x) gs)" and dg: "list_all digit_group gs" by blast
  have fg: "digit_group ?first"
    using f by (auto simp: digit_group_def list_all_iff dest: set_takeWhileD)
  have j: "join_dot (?first # gs) = ?first @ g" unfolding gs by (rule join_dot_Cons)
  have g2: "list_all digit_group (?first # gs)" using fg dg by simp
  from n j g2 show ?thesis by (metis list.distinct(1))
qed

lemma match_hier_split:
  assumes a: "match_hier p = Some (n, d, r)"
  shows "split_dot n \<noteq> [] \<and> list_all digit_group (split_dot n)"
proof -
  from match_hier_groups [OF a] obtain gs where ne: "gs \<noteq> []"
    and gs: "list_all digit_group gs" and n: "n = join_dot gs" by blast
  have "split_dot n = gs" unfolding n using ne gs by (intro split_dot_join_dot) auto
  with ne gs show ?thesis by simp
qed

section \<open>The second run of the renumbering\<close>

text \<open>A path of printable numbers is written as a numbering that is read back.\<close>

lemma printable_path_read_back:
  assumes J: "prints_back J" and e: "list_all (printable J) e" and ne: "e \<noteq> []"
  shows "map (parseInt J) (split_dot (join_dot (map (number_to_string J) e))) = e"
proof -
  have g: "list_all digit_group (map (number_to_string J) e)"
    using e by (auto simp: list_all_iff printable_text)
  have "split_dot (join_dot (map (number_to_string J) e)) = map (number_to_string J) e"
    using ne g by (intro split_dot_join_dot) auto
  moreover have "map (parseInt J) (map (number_to_string J) e) = e"
    using e by (induction e) (auto simp: printable_read_back [OF J])
  ultimately show ?thesis by simp
qed

lemma printable_path_matches:
  assumes e: "list_all (printable J) e" and ne: "e \<noteq> []"
    and d: "d = [] \<or> d = ''.'' \<or> d = '')''"
  shows "match_hier (join_dot (map (number_to_string J) e) @ d @ '' '' @ norm r)
         = Some (join_dot (map (number_to_string J) e), d, norm r)"
proof -
  have g: "list_all digit_group (map (number_to_string J) e)"
    using e by (auto simp: list_all_iff printable_text)
  show ?thesis
    using ne g d tidy_norm trimmed_norm by (intro match_hier_rendered) auto
qed

text \<open>A text that cannot be matched: the three places where a blocking text comes up.\<close>

lemma no_match_after_groups:
  assumes ne: "gs \<noteq> []" and gs: "list_all digit_group gs"
    and c: "\<not> is_digit c" "c \<noteq> CHR ''.''" "c \<noteq> CHR '')''" "\<not> is_ws c"
  shows "match_hier (join_dot gs @ c # t) = None"
proof -
  from ne obtain g gs' where g: "gs = g # gs'" by (cases gs) auto
  let ?G = "concat (map (\<lambda>x. CHR ''.'' # x) gs')"
  let ?T = "c # t"
  have j: "join_dot gs = g @ ?G" unfolding g by (rule join_dot_Cons)
  from gs g have gg: "g \<noteq> []" and gd: "\<forall>c \<in> set g. is_digit c"
    and gs': "list_all digit_group gs'"
    by (auto simp: digit_group_def list_all_iff)
  have stop1: "\<not> (\<exists>x y. ?T = CHR ''.'' # x # y \<and> is_digit x)" using c by simp
  have stop2: "?T = [] \<or> \<not> is_digit (hd ?T)" using c by simp
  have stop3: "?G @ ?T = [] \<or> \<not> is_digit (hd (?G @ ?T))"
  proof (cases gs')
    case Nil
    with stop2 show ?thesis by simp
  next
    case (Cons a list)
    then show ?thesis by (simp add: is_digit_def)
  qed
  have "\<not> is_ws (hd (g @ ?G @ ?T))" using gg gd by (cases g) (auto dest: digit_not_ws)
  then have s1: "dropWhile is_ws (g @ ?G @ ?T) = g @ ?G @ ?T"
    using gg by (cases g) auto
  have first: "takeWhile is_digit (g @ ?G @ ?T) = g"
    using gd stop3 by (rule takeWhile_all_append)
  have after: "dropWhile is_digit (g @ ?G @ ?T) = ?G @ ?T"
    using gd stop3 by (rule dropWhile_all_append)
  have mg: "more_groups (?G @ ?T) = (?G, ?T)"
    using gs' stop1 stop2 by (rule more_groups_join)
  have "match_hier (g @ ?G @ ?T) = None"
    unfolding match_hier_def Let_def s1 first after mg
    using c gg by simp
  then show ?thesis by (simp add: j)
qed

lemma no_match_after_dot:
  assumes ne: "gs \<noteq> []" and gs: "list_all digit_group gs"
    and c: "\<not> is_digit c" "\<not> is_ws c"
  shows "match_hier (join_dot gs @ CHR ''.'' # c # t) = None"
proof -
  from ne obtain g gs' where g: "gs = g # gs'" by (cases gs) auto
  let ?G = "concat (map (\<lambda>x. CHR ''.'' # x) gs')"
  let ?T = "CHR ''.'' # c # t"
  have j: "join_dot gs = g @ ?G" unfolding g by (rule join_dot_Cons)
  from gs g have gg: "g \<noteq> []" and gd: "\<forall>c \<in> set g. is_digit c"
    and gs': "list_all digit_group gs'"
    by (auto simp: digit_group_def list_all_iff)
  have stop1: "\<not> (\<exists>x y. ?T = CHR ''.'' # x # y \<and> is_digit x)" using c by simp
  have stop2: "?T = [] \<or> \<not> is_digit (hd ?T)" by (simp add: is_digit_def)
  have stop3: "?G @ ?T = [] \<or> \<not> is_digit (hd (?G @ ?T))"
  proof (cases gs')
    case Nil
    with stop2 show ?thesis by simp
  next
    case (Cons a list)
    then show ?thesis by (simp add: is_digit_def)
  qed
  have "\<not> is_ws (hd (g @ ?G @ ?T))" using gg gd by (cases g) (auto dest: digit_not_ws)
  then have s1: "dropWhile is_ws (g @ ?G @ ?T) = g @ ?G @ ?T"
    using gg by (cases g) auto
  have first: "takeWhile is_digit (g @ ?G @ ?T) = g"
    using gd stop3 by (rule takeWhile_all_append)
  have after: "dropWhile is_digit (g @ ?G @ ?T) = ?G @ ?T"
    using gd stop3 by (rule dropWhile_all_append)
  have mg: "more_groups (?G @ ?T) = (?G, ?T)"
    using gs' stop1 stop2 by (rule more_groups_join)
  have "match_hier (g @ ?G @ ?T) = None"
    unfolding match_hier_def Let_def s1 first after mg
    using c gg by simp
  then show ?thesis by (simp add: j)
qed

lemma no_match_at_start:
  assumes c: "\<not> is_digit c" "\<not> is_ws c"
  shows "match_hier (c # t) = None"
  using c by (simp add: match_hier_def Let_def split: prod.splits)

lemma join_dot_append:
  "xs \<noteq> [] \<Longrightarrow> join_dot (xs @ y # ys) = join_dot xs @ CHR ''.'' # join_dot (y # ys)"
proof -
  assume "xs \<noteq> []"
  then obtain x xs' where x: "xs = x # xs'" by (cases xs) auto
  show ?thesis unfolding x by (simp add: join_dot_Cons)
qed

lemma join_dot_groups_append:
  "xs \<noteq> [] \<Longrightarrow> gs \<noteq> [] \<Longrightarrow> join_dot xs @ CHR ''.'' # join_dot gs = join_dot (xs @ gs)"
proof -
  assume "xs \<noteq> []" and "gs \<noteq> []"
  then obtain g gs' where "gs = g # gs'" by (cases gs) auto
  with \<open>xs \<noteq> []\<close> show ?thesis by (simp add: join_dot_append)
qed

lemma blocked_path_no_match:
  assumes xs: "list_all digit_group xs" and b: "blocks y"
  shows "match_hier (join_dot (xs @ y # ys) @ tail) = None"
proof -
  from b obtain gs c t where y: "y = join_dot gs @ c # t" and gs: "list_all digit_group gs"
    and c: "\<not> is_digit c" "c \<noteq> CHR ''.''" "c \<noteq> CHR '')''" "\<not> is_ws c"
    unfolding blocks_def by blast
  let ?rest = "t @ concat (map (\<lambda>x. CHR ''.'' # x) ys) @ tail"
  have jy: "join_dot (y # ys) @ tail = join_dot gs @ c # ?rest"
    by (simp add: join_dot_Cons y)
  show ?thesis
  proof (cases "xs = []")
    case True
    show ?thesis
    proof (cases "gs = []")
      case g: True
      with True jy c show ?thesis by (simp add: no_match_at_start)
    next
      case g: False
      with True jy gs c show ?thesis by (simp add: no_match_after_groups)
    qed
  next
    case False
    then have j: "join_dot (xs @ y # ys) @ tail
                  = join_dot xs @ CHR ''.'' # join_dot gs @ c # ?rest"
      using jy by (simp add: join_dot_append)
    show ?thesis
    proof (cases "gs = []")
      case g: True
      with j False xs c show ?thesis by (simp add: no_match_after_dot)
    next
      case g: False
      have "join_dot (xs @ y # ys) @ tail = join_dot (xs @ gs) @ c # ?rest"
        using j join_dot_groups_append [OF False g] by (metis append_Cons append_assoc)
      moreover have "list_all digit_group (xs @ gs)" using xs gs by simp
      ultimately show ?thesis using False c by (simp add: no_match_after_groups)
    qed
  qed
qed

lemma unprintable_path_no_match:
  assumes p: "list_all (plain J) e" and n: "\<not> list_all (printable J) e"
  shows "match_hier (join_dot (map (number_to_string J) e) @ tail) = None"
proof -
  from n have "\<exists>x \<in> set e. \<not> printable J x" by (simp add: list_all_iff)
  then obtain e1 x e2 where e: "e = e1 @ x # e2" and x: "\<not> printable J x"
    and e1: "\<forall>y \<in> set e1. printable J y"
    using split_list_first_prop [of e "\<lambda>x. \<not> printable J x"] by auto
  from p e have "plain J x" by simp
  then have b: "blocks (number_to_string J x)" using x by (rule plain_blocks)
  have g: "list_all digit_group (map (number_to_string J) e1)"
    using e1 by (auto simp: list_all_iff printable_text)
  show ?thesis
    unfolding e using blocked_path_no_match [OF g b] by simp
qed

text \<open>
  The second run against the first one, turn by turn. The first run carries the path
  \<open>c\<close> and the second one the path \<open>c'\<close>: the same path as long as every number of \<open>c\<close>
  prints as a run of digits, and the empty path otherwise, since a numbering written with
  a number that does not print as a run of digits is not read as a numbering again.
\<close>

lemma hier_step_second:
  assumes J: "prints_back J" and pl: "list_all (plain J) c"
    and inv: "(c' = c \<and> list_all (printable J) c) \<or> (c' = [] \<and> \<not> list_all (printable J) c)"
  shows "snd (hier_step J c' (snd (hier_step J c p))) = snd (hier_step J c p)
         \<and> list_all (plain J) (fst (hier_step J c p))
         \<and> ((fst (hier_step J c' (snd (hier_step J c p))) = fst (hier_step J c p)
              \<and> list_all (printable J) (fst (hier_step J c p)))
            \<or> (fst (hier_step J c' (snd (hier_step J c p))) = []
              \<and> \<not> list_all (printable J) (fst (hier_step J c p))))"
proof (cases "match_hier p")
  case None
  then have "hier_step J c p = (c, p)" and "hier_step J c' p = (c', p)"
    by (simp_all add: hier_step_no_match)
  with pl inv show ?thesis by auto
next
  case (Some m)
  then obtain n d r where m: "match_hier p = Some (n, d, r)" by (cases m) auto
  let ?found = "map (parseInt J) (split_dot n)"
  let ?e = "expected_path J c ?found"
  let ?q = "join_dot (map (number_to_string J) ?e) @ d @ '' '' @ norm r"
  have step: "hier_step J c p = (?e, ?q)" by (simp add: hier_step_def m Let_def)
  from match_hier_split [OF m] have sn: "split_dot n \<noteq> []"
    and sg: "list_all digit_group (split_dot n)" by simp_all
  have fne: "?found \<noteq> []" using sn by simp
  have fpl: "list_all (plain J) ?found"
    using sg plain_parseInt [OF J] by (auto simp: list_all_iff)
  have epl: "list_all (plain J) ?e" using J pl fpl by (rule plain_expected_path)
  have ene: "?e \<noteq> []" using fne by (simp add: expected_path_not_Nil)
  have d: "d = [] \<or> d = ''.'' \<or> d = '')''" using m by (rule match_hier_delim)
  show ?thesis
  proof (cases "list_all (printable J) ?e")
    case True
    have mq: "match_hier ?q = Some (join_dot (map (number_to_string J) ?e), d, norm r)"
      using True ene d by (rule printable_path_matches)
    have rb: "map (parseInt J) (split_dot (join_dot (map (number_to_string J) ?e))) = ?e"
      using J True ene by (rule printable_path_read_back)
    have same: "expected_path J c' ?e = ?e"
      using inv fne by (auto simp: expected_path_again expected_path_first)
    have "hier_step J c' ?q = (?e, ?q)"
      unfolding hier_step_def mq by (simp add: rb same norm_norm Let_def)
    with step epl True show ?thesis by simp
  next
    case False
    have mq: "match_hier ?q = None"
      using unprintable_path_no_match [OF epl False, of "d @ '' '' @ norm r"] by simp
    have c': "c' = []"
    proof (cases "c = []")
      case True
      with inv show ?thesis by auto
    next
      case ne: False
      show ?thesis
      proof (rule ccontr)
        assume "c' \<noteq> []"
        with inv have "list_all (printable J) c" by auto
        then have "list_all (printable J) ?e" using J ne printable_expected_path by blast
        with False show False by simp
      qed
    qed
    have "hier_step J c' ?q = (c', ?q)" using mq by (rule hier_step_no_match)
    with step epl False c' show ?thesis by simp
  qed
qed

lemma scan_out_second:
  assumes J: "prints_back J"
  shows "list_all (plain J) c \<Longrightarrow>
         (c' = c \<and> list_all (printable J) c) \<or> (c' = [] \<and> \<not> list_all (printable J) c) \<Longrightarrow>
         scan_out J c' (scan_out J c ps) = scan_out J c ps"
proof (induction ps arbitrary: c c')
  case Nil
  show ?case by simp
next
  case (Cons p ps)
  note s = hier_step_second [OF J Cons.prems(1) Cons.prems(2), of p]
  from s have a: "snd (hier_step J c' (snd (hier_step J c p))) = snd (hier_step J c p)"
    by blast
  from s have b: "list_all (plain J) (fst (hier_step J c p))" by blast
  from s have i: "(fst (hier_step J c' (snd (hier_step J c p))) = fst (hier_step J c p)
              \<and> list_all (printable J) (fst (hier_step J c p)))
            \<or> (fst (hier_step J c' (snd (hier_step J c p))) = []
              \<and> \<not> list_all (printable J) (fst (hier_step J c p)))" by blast
  have "scan_out J (fst (hier_step J c' (snd (hier_step J c p))))
          (scan_out J (fst (hier_step J c p)) ps) = scan_out J (fst (hier_step J c p)) ps"
    using b i by (rule Cons.IH)
  with a show ?case by simp
qed

text \<open>The instance of the parameters where every integer is a number of its own.\<close>

lemma exact_big_to_string:
  "big_to_string exact_doubles (False, n) = nat_to_string (9007199254740992 + n)"
  "big_to_string exact_doubles (True, n) = CHR ''-'' # nat_to_string (9007199254740992 + n)"
  by (simp_all add: exact_doubles_def)

lemma is_digit_minus: "\<not> is_digit CHR ''-''"
  by code_simp

lemma digit_group_minus: "\<not> digit_group (CHR ''-'' # t)"
  by (simp add: digit_group_def is_digit_minus)

lemma exact_digit_group: "digit_group (big_to_string exact_doubles (s, n)) = (\<not> s)"
  by (cases s) (simp_all add: exact_big_to_string digit_group_nat_to_string is_digit_minus)

lemma plain_exact_Big: "plain exact_doubles (Big b)"
proof -
  obtain s n where b: "b = (s, n)" by (cases b) auto
  show ?thesis unfolding b plain_def
    by (cases s) (simp_all add: exact_big_to_string digit_group_nat_to_string blocks_minus)
qed

lemma exact_read_back:
  assumes "digit_group (big_to_string exact_doubles b)"
  shows "parseInt exact_doubles (big_to_string exact_doubles b) = Big b"
proof -
  obtain s n where b: "b = (s, n)" by (cases b) auto
  from assms have s: "\<not> s" unfolding b by (simp add: exact_digit_group)
  have "parseInt exact_doubles (nat_to_string (9007199254740992 + n))
        = number_of exact_doubles (int (9007199254740992 + n))"
    by (simp add: parseInt_digit_group digit_group_nat_to_string digits_value_nat_to_string)
  also have "\<dots> = Big (False, n)"
    by (simp add: number_of_def exact_doubles_def exact_big_def)
  finally show ?thesis using s unfolding b by (simp add: exact_big_to_string)
qed

lemma exact_big_add_plain: "plain exact_doubles (big_add exact_doubles b 1)"
  by (simp add: exact_doubles_def plain_Small plain_exact_Big [unfolded exact_doubles_def])

lemma exact_next_printable:
  assumes "printable exact_doubles x"
  shows "printable exact_doubles (num_add exact_doubles x 1)"
proof (cases x)
  case NaN
  with assms show ?thesis by simp
next
  case (Small i)
  with assms have "0 \<le> i" by simp
  then show ?thesis unfolding Small
    by (simp add: number_of_def exact_doubles_def exact_big_def digit_group_nat_to_string)
next
  case (Big b)
  obtain s n where b: "b = (s, n)" by (cases b) auto
  from assms have s: "\<not> s" unfolding Big b by (simp add: exact_digit_group)
  have "big_add exact_doubles (False, n) 1 = Big (False, Suc n)"
    by (simp add: exact_doubles_def exact_value_def exact_big_def)
  then show ?thesis using s unfolding Big b by (simp add: exact_digit_group)
qed

lemma prints_back_exact: "prints_back exact_doubles"
  unfolding prints_back_def
  using plain_exact_Big exact_read_back exact_big_add_plain exact_next_printable by blast

section \<open>The claims on the renumbering\<close>

text \<open>
  C8. The output of \<^verbatim>\<open>renumberHierarchical\<close> has the length of the input, and at every
  index where the paragraph does not match the pattern of a hierarchical numbering, the
  output is the input paragraph itself: only matching paragraphs can be altered. A
  paragraph matches the pattern exactly when it is, after white space if any, groups of
  digits joined by dots, then a dot, a closing parenthesis or nothing, then white space,
  then a rest with no line terminator.
\<close>

theorem renumberHierarchical_frame:
  "length (renumberHierarchical J ps) = length ps
   \<and> (\<forall>i < length ps. match_hier (ps ! i) = None \<longrightarrow> renumberHierarchical J ps ! i = ps ! i)
   \<and> (match_hier p \<noteq> None) = hier_prefixed p"
proof -
  have c: "(match_hier p \<noteq> None) = hier_prefixed p"
    using match_hier_prefixed prefixed_match_hier by fastforce
  have a: "length (renumberHierarchical J ps) = length ps"
    by (simp add: renumberHierarchical_scan length_scan_out)
  have b: "renumberHierarchical J ps ! i = ps ! i"
    if i: "i < length ps" and n: "match_hier (ps ! i) = None" for i
  proof -
    have ps: "ps = take i ps @ ps ! i # drop (Suc i) ps"
      using i by (simp add: id_take_nth_drop)
    have "renumberHierarchical J (take i ps @ ps ! i # drop (Suc i) ps) ! length (take i ps)
          = snd (hier_step J (carried_path J (take i ps)) (ps ! i))"
      by (rule renumberHierarchical_nth)
    with ps i have "renumberHierarchical J ps ! i
          = snd (hier_step J (carried_path J (take i ps)) (ps ! i))"
      by (simp add: min_def)
    with n show ?thesis by (simp add: hier_step_no_match)
  qed
  from a b c show ?thesis by blast
qed

theorem renumberHierarchical_frame_witness:
  "length (renumberHierarchical exact_doubles [''6 a'', ''x  y'', ''6.3.5 b'']) = 3
   \<and> renumberHierarchical exact_doubles [''6 a'', ''x  y'', ''6.3.5 b''] ! 1 = ''x  y''"
proof -
  have n: "match_hier ([''6 a'', ''x  y'', ''6.3.5 b''] ! 1) = None" by code_simp
  have l: "(1::nat) < length [''6 a'', ''x  y'', ''6.3.5 b'']" by simp
  from renumberHierarchical_frame [of exact_doubles "[''6 a'', ''x  y'', ''6.3.5 b'']"]
  have f: "length (renumberHierarchical exact_doubles [''6 a'', ''x  y'', ''6.3.5 b''])
             = length [''6 a'', ''x  y'', ''6.3.5 b'']"
    and g: "\<forall>i < length [''6 a'', ''x  y'', ''6.3.5 b''].
             match_hier ([''6 a'', ''x  y'', ''6.3.5 b''] ! i) = None \<longrightarrow>
             renumberHierarchical exact_doubles [''6 a'', ''x  y'', ''6.3.5 b''] ! i
             = [''6 a'', ''x  y'', ''6.3.5 b''] ! i"
    by blast+
  from g l n have "renumberHierarchical exact_doubles [''6 a'', ''x  y'', ''6.3.5 b''] ! 1
                   = [''6 a'', ''x  y'', ''6.3.5 b''] ! 1"
    by blast
  with f show ?thesis by simp
qed

text \<open>
  C3. When no paragraph before \<open>p\<close> matches the pattern, the carried path is still empty
  at \<open>p\<close>; if \<open>p\<close> matches, the path read from \<open>p\<close> is the list of the numbers that
  \<^verbatim>\<open>parseInt\<close> reads from its groups of digits (the number for the integer a group
  denotes: that integer below \<open>2 ^ 53\<close>, the double next to it from there on), the
  paragraph written in the place of \<open>p\<close> carries that path, written number by number as
  the script writes a number, and that path is the one carried on: the numbering the
  document starts with is kept, and is not forced to 1.
\<close>

theorem renumberHierarchical_first_numbered:
  assumes "\<forall>q \<in> set pre. match_hier q = None"
    and "match_hier p = Some (numberingStr, delim, restRaw)"
  shows "carried_path J pre = []
    \<and> map (parseInt J) (split_dot numberingStr)
      = map (\<lambda>g. number_of J (int (digits_value g))) (split_dot numberingStr)
    \<and> renumberHierarchical J (pre @ p # post) ! length pre
      = join_dot (map (number_to_string J) (map (parseInt J) (split_dot numberingStr)))
        @ delim @ '' '' @ norm restRaw
    \<and> carried_path J (pre @ [p]) = map (parseInt J) (split_dot numberingStr)"
proof -
  have c: "carried_path J pre = []" using assms(1) by (rule carried_path_no_match)
  have g: "list_all digit_group (split_dot numberingStr)"
    using match_hier_split [OF assms(2)] by simp
  then have r: "map (parseInt J) (split_dot numberingStr)
      = map (\<lambda>g. number_of J (int (digits_value g))) (split_dot numberingStr)"
    by (auto simp: list_all_iff parseInt_digit_group)
  have s: "hier_step J [] p
     = (map (parseInt J) (split_dot numberingStr),
        join_dot (map (number_to_string J) (map (parseInt J) (split_dot numberingStr)))
        @ delim @ '' '' @ norm restRaw)"
    using assms(2) by (simp add: hier_step_def expected_path_def)
  show ?thesis
    using c r s renumberHierarchical_nth [of J pre p post] carried_path_snoc [of J pre p]
    by simp
qed

theorem renumberHierarchical_first_numbered_witness:
  "carried_path exact_doubles [''intro''] = []
   \<and> renumberHierarchical exact_doubles ([''intro''] @ ''6.3.5)  x   y '' # [''7 z''])
       ! length [''intro'']
     = ''6.3.5) x y''
   \<and> carried_path exact_doubles ([''intro''] @ [''6.3.5)  x   y ''])
     = [Small 6, Small 3, Small 5]"
proof -
  have a: "\<forall>q \<in> set [''intro'']. match_hier q = None" by code_simp
  have b: "match_hier ''6.3.5)  x   y '' = Some (''6.3.5'', '')'', ''x   y '')" by code_simp
  have d: "map (parseInt exact_doubles) (split_dot ''6.3.5'') = [Small 6, Small 3, Small 5]"
    by code_simp
  have c: "join_dot (map (number_to_string exact_doubles) [Small 6, Small 3, Small 5])
        @ '')'' @ '' '' @ norm ''x   y '' = ''6.3.5) x y''" by code_simp
  from renumberHierarchical_first_numbered [OF a b, of exact_doubles "[''7 z'']"]
  have "carried_path exact_doubles [''intro''] = []
    \<and> renumberHierarchical exact_doubles ([''intro''] @ ''6.3.5)  x   y '' # [''7 z''])
        ! length [''intro'']
      = join_dot (map (number_to_string exact_doubles)
          (map (parseInt exact_doubles) (split_dot ''6.3.5'')))
        @ '')'' @ '' '' @ norm ''x   y ''
    \<and> carried_path exact_doubles ([''intro''] @ [''6.3.5)  x   y ''])
      = map (parseInt exact_doubles) (split_dot ''6.3.5'')"
    by blast
  then show ?thesis unfolding d c by simp
qed

text \<open>
  C2. When a paragraph before \<open>p\<close> matches the pattern and \<open>p\<close> matches it, the paragraph
  written in the place of \<open>p\<close> carries the corrected path, which comes from the carried
  path and the depth of the path read by four rules: the same depth increments the last
  element; one level deeper appends 1; a smaller depth cuts the carried path to that
  depth and increments its last element; two or more levels deeper append as many 1s as
  levels. To increment is to add 1 as the script does: the next integer when that
  is below \<open>2 ^ 53\<close> in size, and on a double of size \<open>2 ^ 53\<close> or more the double the
  sum rounds to. The corrected path is carried on. The sequence
  \<^verbatim>\<open>["6.1 a", "6.1.1 b", "6.1.1.1 c"]\<close> comes back as it is, and \<^verbatim>\<open>["6 a", "6.3.5 b"]\<close>
  gives \<^verbatim>\<open>["6 a", "6.1.1 b"]\<close>.
\<close>

theorem renumberHierarchical_corrected_path:
  "((\<exists>q \<in> set pre. match_hier q \<noteq> None) \<and> match_hier p = Some (numberingStr, delim, restRaw)
     \<longrightarrow> (let found = map (parseInt J) (split_dot numberingStr);
              expected = corrected_path J (carried_path J pre) (length found)
          in renumberHierarchical J (pre @ p # post) ! length pre
               = join_dot (map (number_to_string J) expected) @ delim @ '' '' @ norm restRaw
             \<and> carried_path J (pre @ [p]) = expected))
   \<and> (\<bar>i + 1\<bar> < 9007199254740992 \<longrightarrow> num_add J (Small i) 1 = Small (i + 1))
   \<and> renumberHierarchical J [''6.1 a'', ''6.1.1 b'', ''6.1.1.1 c'']
     = [''6.1 a'', ''6.1.1 b'', ''6.1.1.1 c'']
   \<and> renumberHierarchical J [''6 a'', ''6.3.5 b''] = [''6 a'', ''6.1.1 b'']"
proof -
  have a: "renumberHierarchical J (pre @ p # post) ! length pre
             = join_dot (map (number_to_string J)
                 (corrected_path J (carried_path J pre)
                   (length (map (parseInt J) (split_dot numberingStr)))))
               @ delim @ '' '' @ norm restRaw
           \<and> carried_path J (pre @ [p])
             = corrected_path J (carried_path J pre)
                 (length (map (parseInt J) (split_dot numberingStr)))"
    if e: "\<exists>q \<in> set pre. match_hier q \<noteq> None"
      and m: "match_hier p = Some (numberingStr, delim, restRaw)"
  proof -
    let ?found = "map (parseInt J) (split_dot numberingStr)"
    have c: "carried_path J pre \<noteq> []" using e by (rule carried_path_match)
    have f: "?found \<noteq> []" by (simp add: split_dot_not_Nil)
    have x: "expected_path J (carried_path J pre) ?found
             = corrected_path J (carried_path J pre) (length ?found)"
      using c f by (rule expected_path_corrected)
    have s: "hier_step J (carried_path J pre) p
       = (corrected_path J (carried_path J pre) (length ?found),
          join_dot (map (number_to_string J)
            (corrected_path J (carried_path J pre) (length ?found)))
          @ delim @ '' '' @ norm restRaw)"
      using m x by (simp add: hier_step_def Let_def)
    show ?thesis
      using s renumberHierarchical_nth [of J pre p post] carried_path_snoc [of J pre p]
      by simp
  qed
  have n: "num_add J (Small i) 1 = Small (i + 1)" if "\<bar>i + 1\<bar> < 9007199254740992"
    using that by (simp add: number_of_def)
  have m: "match_hier ''6.1 a'' = Some (''6.1'', [], ''a'')"
    "match_hier ''6.1.1 b'' = Some (''6.1.1'', [], ''b'')"
    "match_hier ''6.1.1.1 c'' = Some (''6.1.1.1'', [], ''c'')"
    "match_hier ''6 a'' = Some (''6'', [], ''a'')"
    "match_hier ''6.3.5 b'' = Some (''6.3.5'', [], ''b'')"
    by code_simp+
  have s: "split_dot ''6.1'' = [''6'', ''1'']" "split_dot ''6.1.1'' = [''6'', ''1'', ''1'']"
    "split_dot ''6.1.1.1'' = [''6'', ''1'', ''1'', ''1'']" "split_dot ''6'' = [''6'']"
    "split_dot ''6.3.5'' = [''6'', ''3'', ''5'']"
    by code_simp+
  have v: "parseInt J ''6'' = Small 6" "parseInt J ''1'' = Small 1"
    "parseInt J ''3'' = Small 3" "parseInt J ''5'' = Small 5"
    by (simp_all add: read_literal)
  have t: "nat_to_string 6 = ''6''" "nat_to_string 1 = ''1''" "nat_to_string (Suc 0) = ''1''"
    by code_simp+
  have w: "norm ''a'' = ''a''" "norm ''b'' = ''b''" "norm ''c'' = ''c''" by code_simp+
  have b: "renumberHierarchical J [''6.1 a'', ''6.1.1 b'', ''6.1.1.1 c'']
     = [''6.1 a'', ''6.1.1 b'', ''6.1.1.1 c'']"
    by (simp add: renumberHierarchical_scan hier_step_def m s v t w expected_path_def
        number_of_def Let_def)
  have c: "renumberHierarchical J [''6 a'', ''6.3.5 b''] = [''6 a'', ''6.1.1 b'']"
    by (simp add: renumberHierarchical_scan hier_step_def m s v t w expected_path_def
        number_of_def Let_def)
  from a n b c show ?thesis unfolding Let_def by blast
qed

theorem renumberHierarchical_corrected_path_witness:
  "renumberHierarchical exact_doubles ([''6.1.4 a'', ''x''] @ ''9) b'' # [''c''])
     ! length [''6.1.4 a'', ''x'']
     = ''7) b''
   \<and> carried_path exact_doubles ([''6.1.4 a'', ''x''] @ [''9) b'']) = [Small 7]"
proof -
  have a: "\<exists>q \<in> set [''6.1.4 a'', ''x'']. match_hier q \<noteq> None" by code_simp
  have b: "match_hier ''9) b'' = Some (''9'', '')'', ''b'')" by code_simp
  have c: "corrected_path exact_doubles (carried_path exact_doubles [''6.1.4 a'', ''x''])
             (length (map (parseInt exact_doubles) (split_dot ''9''))) = [Small 7]"
    by code_simp
  have d: "join_dot (map (number_to_string exact_doubles) [Small 7]) @ '')'' @ '' '' @ norm ''b''
           = ''7) b''" by code_simp
  from a b
    renumberHierarchical_corrected_path [of "[''6.1.4 a'', ''x'']" "''9) b''" "''9''" "'')''"
      "''b''" exact_doubles "[''c'']"]
  have "renumberHierarchical exact_doubles ([''6.1.4 a'', ''x''] @ ''9) b'' # [''c''])
          ! length [''6.1.4 a'', ''x'']
        = join_dot (map (number_to_string exact_doubles)
            (corrected_path exact_doubles (carried_path exact_doubles [''6.1.4 a'', ''x''])
              (length (map (parseInt exact_doubles) (split_dot ''9'')))))
          @ '')'' @ '' '' @ norm ''b''
      \<and> carried_path exact_doubles ([''6.1.4 a'', ''x''] @ [''9) b''])
        = corrected_path exact_doubles (carried_path exact_doubles [''6.1.4 a'', ''x''])
            (length (map (parseInt exact_doubles) (split_dot ''9'')))"
    unfolding Let_def by blast
  then show ?thesis unfolding c d by simp
qed

text \<open>
  C10. \<^verbatim>\<open>renumberHierarchical\<close> is idempotent, for the doubles of the script. A paragraph
  that is rewritten carries a path of the depth that was read, the delimiter that was
  read and the normalised rest. When every number of the path prints as a run of digits,
  the paragraph matches the pattern again, with the path it carries, and the second run
  writes it again. When a number of the path prints otherwise (\<^verbatim>\<open>1e+21\<close> from
  \<open>10 ^ 21\<close> on), the paragraph does not match again and the second run leaves it as it
  is; the second run then carries no path until the first run comes to a path of
  numbers that print as runs of digits, and from an empty path the second run keeps the
  path it reads. A paragraph that does not match is not changed and does not match in the
  second run either. What is used of the doubles of size \<open>2 ^ 53\<close> or more is
  \<open>prints_back\<close>.
\<close>

theorem renumberHierarchical_idempotent:
  "prints_back J \<Longrightarrow>
   renumberHierarchical J (renumberHierarchical J xs) = renumberHierarchical J xs"
proof -
  assume J: "prints_back J"
  have "scan_out J [] (scan_out J [] xs) = scan_out J [] xs"
    using J by (rule scan_out_second) simp_all
  then show ?thesis by (simp only: renumberHierarchical_scan)
qed

theorem renumberHierarchical_idempotent_witness:
  "prints_back exact_doubles
   \<and> renumberHierarchical exact_doubles [''6 a'', ''t'', ''6.3.5)  b  c'', ''9. d'']
     = [''6 a'', ''t'', ''6.1.1) b c'', ''7. d'']
   \<and> renumberHierarchical exact_doubles
       (renumberHierarchical exact_doubles [''6 a'', ''t'', ''6.3.5)  b  c'', ''9. d''])
     = [''6 a'', ''t'', ''6.1.1) b c'', ''7. d'']"
proof -
  have e: "renumberHierarchical exact_doubles [''6 a'', ''t'', ''6.3.5)  b  c'', ''9. d'']
     = [''6 a'', ''t'', ''6.1.1) b c'', ''7. d'']" by code_simp
  from renumberHierarchical_idempotent [OF prints_back_exact,
      of "[''6 a'', ''t'', ''6.3.5)  b  c'', ''9. d'']"]
  have "renumberHierarchical exact_doubles
       (renumberHierarchical exact_doubles [''6 a'', ''t'', ''6.3.5)  b  c'', ''9. d''])
     = renumberHierarchical exact_doubles [''6 a'', ''t'', ''6.3.5)  b  c'', ''9. d'']" .
  with e prints_back_exact show ?thesis by simp
qed

section \<open>The numbers of the items of an ordered list\<close>

lemma processOl_items_numbers:
  "processOl_items J cs stack counter
   = concat (map2 (item_paragraphs J stack)
       (numbers_from J (num_add J counter 1) (map value_attr (filter is_li cs)))
       (filter is_li cs))"
proof (induction cs arbitrary: counter)
  case Nil
  show ?case by simp
next
  case (Cons c cs)
  show ?case
  proof (cases c)
    case (Text s)
    with Cons show ?thesis by simp
  next
    case (Element t as ds)
    show ?thesis
    proof (cases "t = ''li''")
      case False
      with Element Cons show ?thesis by simp
    next
      case True
      show ?thesis
        unfolding Element using True Cons [of "case map_of as ''value'' of
            Some v \<Rightarrow> if v \<noteq> [] then parseInt J v else num_add J counter 1
          | None \<Rightarrow> num_add J counter 1"]
        by (simp add: item_paragraphs_def Let_def split: option.splits)
    qed
  qed
qed

lemma processOl_numbers:
  "processOl J (Element tag as cs) stack
   = concat (map2 (item_paragraphs J stack)
       (numbers_from J (first_number J as) (map value_attr (filter is_li cs)))
       (filter is_li cs))"
  by (simp add: processOl_items_numbers first_number_def start_number_def Let_def
      split: option.splits)

lemma numbers_from_plain:
  "(\<forall>v \<in> set vs. v = None) \<Longrightarrow>
   numbers_from J (counted J c) vs = map (\<lambda>k. counted J (c + k)) [0 ..< length vs]"
proof (induction vs arbitrary: c)
  case Nil
  show ?case by simp
next
  case (Cons v vs)
  have u: "[0 ..< length (v # vs)] = 0 # map Suc [0 ..< length vs]"
    by (simp add: upt_conv_Cons map_Suc_upt del: upt_Suc)
  have "numbers_from J (counted J (Suc c)) vs
        = map (\<lambda>k. counted J (Suc c + k)) [0 ..< length vs]"
    using Cons.prems by (intro Cons.IH) auto
  then show ?case
    using Cons.prems u by (simp add: comp_def del: upt_Suc)
qed

lemma counted_small: "k < 9007199254740991 \<Longrightarrow> counted J k = Small (1 + int k)"
proof (induction k)
  case 0
  show ?case by simp
next
  case (Suc k)
  then have "counted J k = Small (1 + int k)" by simp
  with Suc.prems show ?case by (simp add: number_of_def)
qed

lemma first_number_default:
  "map_of as ''start'' = None \<or> map_of as ''start'' = Some [] \<Longrightarrow> first_number J as = Small 1"
  by (auto simp: first_number_def start_number_def number_of_def)

lemma number_of_Small: "number_of J k = Small i \<Longrightarrow> \<bar>i\<bar> < 9007199254740992"
  by (auto simp: number_of_def split: if_splits)

lemma parseInt_Small: "parseInt J s = Small i \<Longrightarrow> \<bar>i\<bar> < 9007199254740992"
  by (auto simp: parseInt_def Let_def split: if_splits dest: number_of_Small)

lemma first_number_read:
  assumes "map_of as ''start'' = Some s" and "s \<noteq> []" and "parseInt J s = Small i"
    and "- 9007199254740991 < i"
  shows "first_number J as = Small i"
proof -
  from assms(3) have a: "\<bar>i\<bar> < 9007199254740992" by (rule parseInt_Small)
  with assms(4) have b: "\<bar>i - 1\<bar> < 9007199254740992" by arith
  from assms(1,2,3) a b show ?thesis
    by (simp add: first_number_def start_number_def number_of_def)
qed

lemma first_number_NaN:
  "map_of as ''start'' = Some s \<Longrightarrow> s \<noteq> [] \<Longrightarrow> parseInt J s = NaN \<Longrightarrow> first_number J as = NaN"
  by (simp add: first_number_def start_number_def)

text \<open>The numbers that \<^verbatim>\<open>parseInt\<close> reads from the attributes of the examples.\<close>

lemma read_examples:
  "parseInt J ''0'' = Small 0" "parseInt J ''-3'' = Small (- 3)" "parseInt J ''4'' = Small 4"
  "parseInt J ''x'' = NaN" "parseInt J ''y'' = NaN"
  by (simp_all add: parseInt_def Let_def is_ws_def is_digit_def digits_value_def digit_val_def
      number_of_def)

lemma write_examples:
  "nat_to_string 0 = ''0''" "nat_to_string 1 = ''1''" "nat_to_string (Suc 0) = ''1''"
  "nat_to_string 2 = ''2''" "nat_to_string 3 = ''3''" "nat_to_string 4 = ''4''"
  "norm ''a'' = ''a''" "norm ''b'' = ''b''" "norm ''c'' = ''c''" "norm ''d'' = ''d''"
  "norm ''A  x'' = ''A x''" "norm ''B'' = ''B''" "norm ''C'' = ''C''"
  by code_simp+

text \<open>
  C5. An ordered list gives, item by item, the paragraphs of the item under its number:
  the path of the item is the prefix and then its number, and its paragraph is the path
  joined by dots, a space and the normal form of the main text (the lists below the item
  left out), written only when that text is not empty; the ordered lists below the item
  are numbered under the path of the item. With no attribute \<^verbatim>\<open>start\<close> and no attribute
  \<^verbatim>\<open>value\<close> the numbers of the items are 1, 2, 3 and so on as the script counts them,
  which are the integers 1, 2, 3 and so on below \<open>2 ^ 53\<close>. A list of two items whose
  first item holds a list of one item gives the paragraphs \<^verbatim>\<open>1 ...\<close>, \<^verbatim>\<open>1.1 ...\<close> and
  \<^verbatim>\<open>2 ...\<close>.
\<close>

theorem processOl_synthesis:
  "processOl J (Element tag as cs) stack
     = concat (map2 (item_paragraphs J stack)
         (numbers_from J (first_number J as) (map value_attr (filter is_li cs)))
         (filter is_li cs))
   \<and> (map_of as ''start'' = None \<and> (\<forall>c \<in> set cs. value_attr c = None) \<longrightarrow>
        processOl J (Element tag as cs) stack
        = concat (map2 (item_paragraphs J stack)
            (map (counted J) [0 ..< length (filter is_li cs)])
            (filter is_li cs)))
   \<and> (k < 9007199254740991 \<longrightarrow> counted J k = Small (1 + int k))
   \<and> extractParagraphsFromHtml J
        (Element ''div'' []
          [Element ''ol'' []
            [Element ''li'' []
               [Text ''A  x'', Element ''ol'' [] [Element ''li'' [] [Text ''B'']]],
             Element ''li'' [] [Text ''C'']]])
     = [''1 A x'', ''1.1 B'', ''2 C'']"
proof -
  have a: "processOl J (Element tag as cs) stack
     = concat (map2 (item_paragraphs J stack)
         (numbers_from J (first_number J as) (map value_attr (filter is_li cs)))
         (filter is_li cs))"
    by (rule processOl_numbers)
  have b: "processOl J (Element tag as cs) stack
        = concat (map2 (item_paragraphs J stack)
            (map (counted J) [0 ..< length (filter is_li cs)])
            (filter is_li cs))"
    if s: "map_of as ''start'' = None" and v: "\<forall>c \<in> set cs. value_attr c = None"
  proof -
    from s have f: "first_number J as = counted J 0" by (simp add: first_number_default)
    from v have "\<forall>x \<in> set (map value_attr (filter is_li cs)). x = None" by auto
    then have "numbers_from J (counted J 0) (map value_attr (filter is_li cs))
               = map (\<lambda>k. counted J (0 + k)) [0 ..< length (map value_attr (filter is_li cs))]"
      by (rule numbers_from_plain)
    with a f show ?thesis by simp
  qed
  have n: "counted J k = Small (1 + int k)" if "k < 9007199254740991"
    using that by (rule counted_small)
  have c: "extractParagraphsFromHtml J
        (Element ''div'' []
          [Element ''ol'' []
            [Element ''li'' []
               [Text ''A  x'', Element ''ol'' [] [Element ''li'' [] [Text ''B'']]],
             Element ''li'' [] [Text ''C'']]])
     = [''1 A x'', ''1.1 B'', ''2 C'']"
    by (simp add: extractParagraphsFromHtml_def liMainText_def number_of_def write_examples)
  from a b n c show ?thesis by blast
qed

theorem processOl_synthesis_witness:
  "counted exact_doubles 2 = Small 3
   \<and> processOl exact_doubles
     (Element ''ol'' []
        [Element ''li'' []
           [Text ''A  x'', Element ''ol'' [] [Element ''li'' [] [Text ''B'']]],
         Text '' '',
         Element ''li'' [] [Element ''ul'' [] [Element ''li'' [] [Text ''u'']]],
         Element ''li'' [] [Text ''C'']]) [Small 6]
   = [''6.1 A x'', ''6.1.1 B'', ''u'', ''6.3 C'']"
proof -
  let ?cs = "[Element ''li'' []
           [Text ''A  x'', Element ''ol'' [] [Element ''li'' [] [Text ''B'']]],
         Text '' '',
         Element ''li'' [] [Element ''ul'' [] [Element ''li'' [] [Text ''u'']]],
         Element ''li'' [] [Text ''C'']]"
  have h: "map_of ([] :: (string \<times> string) list) ''start'' = None
           \<and> (\<forall>c \<in> set ?cs. value_attr c = None)"
    by simp
  have k: "(2::nat) < 9007199254740991" by simp
  have e: "concat (map2 (item_paragraphs exact_doubles [Small 6])
            (map (counted exact_doubles) [0 ..< length (filter is_li ?cs)])
            (filter is_li ?cs))
           = [''6.1 A x'', ''6.1.1 B'', ''u'', ''6.3 C'']"
    by code_simp
  from h k processOl_synthesis [of exact_doubles "''ol''" "[]" ?cs "[Small 6]" 2]
  have "processOl exact_doubles (Element ''ol'' [] ?cs) [Small 6]
        = concat (map2 (item_paragraphs exact_doubles [Small 6])
            (map (counted exact_doubles) [0 ..< length (filter is_li ?cs)])
            (filter is_li ?cs))"
    and "counted exact_doubles 2 = Small (1 + int 2)"
    by blast+
  then show ?thesis by (simp only: e) simp
qed

text \<open>
  C6, as amended. The synthesizer gives a result on every list, and the numbers of the
  items come from the attributes with no check of their range and no fallback. The start
  of a list is what \<^verbatim>\<open>parseInt\<close> reads from the attribute \<^verbatim>\<open>start\<close> when it is present
  and not empty, and 1 otherwise; the counter begins one below the start and the first
  item gets one more, which is the start itself when the start is an integer above
  \<open>- (2 ^ 53 - 1)\<close> and below \<open>2 ^ 53\<close>. An item with an attribute \<^verbatim>\<open>value\<close> that is
  present and not empty gets the number \<^verbatim>\<open>parseInt\<close> reads from it, and the items after
  it go on from that number. Zero and negative numbers are used as they are: a list that
  starts at 0 numbers its items 0, 1, and so on. An attribute with no integer at its
  beginning reads as \<^verbatim>\<open>NaN\<close>, which is written \<^verbatim>\<open>NaN\<close> and stays \<^verbatim>\<open>NaN\<close> when 1 is added:
  the items are numbered \<^verbatim>\<open>NaN\<close> up to the next item with an attribute \<^verbatim>\<open>value\<close> that
  reads as a number.
\<close>

theorem processOl_attributes:
  "processOl J (Element tag as cs) stack
     = concat (map2 (item_paragraphs J stack)
         (numbers_from J (first_number J as) (map value_attr (filter is_li cs)))
         (filter is_li cs))
   \<and> (map_of as ''start'' = None \<or> map_of as ''start'' = Some [] \<longrightarrow>
        first_number J as = Small 1)
   \<and> (map_of as ''start'' = Some s \<and> s \<noteq> [] \<and> parseInt J s = Small i
        \<and> - 9007199254740991 < i \<longrightarrow> first_number J as = Small i)
   \<and> (map_of as ''start'' = Some s \<and> s \<noteq> [] \<and> parseInt J s = NaN \<longrightarrow>
        first_number J as = NaN)
   \<and> num_add J NaN 1 = NaN
   \<and> processOl J (Element ''ol'' [(''start'', ''0'')]
        [plain_item None ''a'', plain_item None ''b'']) []
     = [''0 a'', ''1 b'']
   \<and> processOl J (Element ''ol'' [(''start'', ''-3'')]
        [plain_item None ''a'', plain_item (Some ''0'') ''b'', plain_item None ''c'']) []
     = [''-3 a'', ''0 b'', ''1 c'']
   \<and> processOl J (Element ''ol'' [(''start'', ''x'')]
        [plain_item None ''a'', plain_item None ''b'', plain_item (Some ''4'') ''c'',
         plain_item (Some ''y'') ''d'']) []
     = [''NaN a'', ''NaN b'', ''4 c'', ''NaN d'']"
proof -
  have a: "processOl J (Element tag as cs) stack
     = concat (map2 (item_paragraphs J stack)
         (numbers_from J (first_number J as) (map value_attr (filter is_li cs)))
         (filter is_li cs))"
    by (rule processOl_numbers)
  have b: "first_number J as = Small 1"
    if "map_of as ''start'' = None \<or> map_of as ''start'' = Some []"
    using that by (rule first_number_default)
  have c: "first_number J as = Small i"
    if "map_of as ''start'' = Some s" and "s \<noteq> []" and "parseInt J s = Small i"
      and "- 9007199254740991 < i"
    using that by (rule first_number_read)
  have d: "first_number J as = NaN"
    if "map_of as ''start'' = Some s" and "s \<noteq> []" and "parseInt J s = NaN"
    using that by (rule first_number_NaN)
  have e: "num_add J NaN 1 = NaN" by simp
  have f: "processOl J (Element ''ol'' [(''start'', ''0'')]
        [plain_item None ''a'', plain_item None ''b'']) []
     = [''0 a'', ''1 b'']"
    by (simp add: plain_item_def liMainText_def number_of_def read_examples write_examples)
  have g: "processOl J (Element ''ol'' [(''start'', ''-3'')]
        [plain_item None ''a'', plain_item (Some ''0'') ''b'', plain_item None ''c'']) []
     = [''-3 a'', ''0 b'', ''1 c'']"
    by (simp add: plain_item_def liMainText_def number_of_def read_examples write_examples)
  have h: "processOl J (Element ''ol'' [(''start'', ''x'')]
        [plain_item None ''a'', plain_item None ''b'', plain_item (Some ''4'') ''c'',
         plain_item (Some ''y'') ''d'']) []
     = [''NaN a'', ''NaN b'', ''4 c'', ''NaN d'']"
    by (simp add: plain_item_def liMainText_def number_of_def read_examples write_examples)
  from a b c d e f g h show ?thesis by blast
qed

theorem processOl_attributes_witness:
  "first_number exact_doubles [(''start'', ''5'')] = Small 5
   \<and> first_number exact_doubles [(''start'', ''abc'')] = NaN
   \<and> first_number exact_doubles [(''start'', [])] = Small 1
   \<and> processOl exact_doubles (Element ''ol'' [(''start'', ''5'')]
       [plain_item None ''a'', Text '' '', plain_item (Some ''9'') '' b '',
        Element ''li'' [] [Text ''c'', Element ''ol'' [(''start'', ''-1'')]
          [plain_item None ''n'', plain_item None ''m'']],
        plain_item (Some []) ''d'', plain_item (Some ''-2x'') ''e'']) [Small 2]
     = [''2.5 a'', ''2.9 b'', ''2.10 c'', ''2.10.-1 n'', ''2.10.0 m'', ''2.11 d'', ''2.-2 e'']"
proof -
  let ?cs = "[plain_item None ''a'', Text '' '', plain_item (Some ''9'') '' b '',
        Element ''li'' [] [Text ''c'', Element ''ol'' [(''start'', ''-1'')]
          [plain_item None ''n'', plain_item None ''m'']],
        plain_item (Some []) ''d'', plain_item (Some ''-2x'') ''e'']"
  have h1: "map_of [(''start'', ''5'')] ''start'' = Some ''5'' \<and> ''5'' \<noteq> []
      \<and> parseInt exact_doubles ''5'' = Small 5 \<and> - 9007199254740991 < (5::int)"
    by code_simp
  have h2: "map_of [(''start'', ''abc'')] ''start'' = Some ''abc'' \<and> ''abc'' \<noteq> []
      \<and> parseInt exact_doubles ''abc'' = NaN"
    by code_simp
  have h3: "map_of [(''start'', [])] ''start'' = None \<or> map_of [(''start'', [])] ''start'' = Some []"
    by simp
  have e: "concat (map2 (item_paragraphs exact_doubles [Small 2])
         (numbers_from exact_doubles (Small 5) (map value_attr (filter is_li ?cs)))
         (filter is_li ?cs))
     = [''2.5 a'', ''2.9 b'', ''2.10 c'', ''2.10.-1 n'', ''2.10.0 m'', ''2.11 d'', ''2.-2 e'']"
    by code_simp
  from h1 processOl_attributes [of exact_doubles "''ol''" "[(''start'', ''5'')]" ?cs "[Small 2]"
      "''5''" 5]
  have a: "first_number exact_doubles [(''start'', ''5'')] = Small 5"
    and p: "processOl exact_doubles (Element ''ol'' [(''start'', ''5'')] ?cs) [Small 2]
     = concat (map2 (item_paragraphs exact_doubles [Small 2])
         (numbers_from exact_doubles (first_number exact_doubles [(''start'', ''5'')])
           (map value_attr (filter is_li ?cs)))
         (filter is_li ?cs))"
    by blast+
  from h2 processOl_attributes [of exact_doubles "''ol''" "[(''start'', ''abc'')]" "[]" "[]"
      "''abc''" 0]
  have b: "first_number exact_doubles [(''start'', ''abc'')] = NaN" by blast
  from h3 processOl_attributes [of exact_doubles "''ol''" "[(''start'', [])]" "[]" "[]" "[]" 0]
  have c: "first_number exact_doubles [(''start'', [])] = Small 1" by blast
  from p have "processOl exact_doubles (Element ''ol'' [(''start'', ''5'')] ?cs) [Small 2]
     = [''2.5 a'', ''2.9 b'', ''2.10 c'', ''2.10.-1 n'', ''2.10.0 m'', ''2.11 d'', ''2.-2 e'']"
    unfolding a by (simp only: e)
  with a b c show ?thesis by blast
qed

text \<open>
  The claim C6 as it was written fails where it promises the default for an attribute
  that is out of range or malformed. A list whose attribute \<^verbatim>\<open>start\<close> is 0 numbers its
  item 0 and one whose attribute \<^verbatim>\<open>start\<close> is \<open>- 3\<close> numbers it \<open>- 3\<close>, a list whose
  attribute \<^verbatim>\<open>start\<close> is the text \<^verbatim>\<open>x\<close> numbers its items \<^verbatim>\<open>NaN\<close>, and so does an item
  whose attribute \<^verbatim>\<open>value\<close> is the text \<^verbatim>\<open>abc\<close>, while the same lists without the
  attributes number the items 1 and 2.
\<close>

theorem processOl_no_fallback_counterexample:
  "processOl exact_doubles
     (Element ''ol'' [(''start'', ''0'')] [Element ''li'' [] [Text ''a'']]) []
     = [''0 a'']
   \<and> processOl exact_doubles
       (Element ''ol'' [(''start'', ''-3'')] [Element ''li'' [] [Text ''a'']]) []
     = [''-3 a'']
   \<and> processOl exact_doubles
       (Element ''ol'' [(''start'', ''x'')]
          [Element ''li'' [] [Text ''a''], Element ''li'' [] [Text ''b'']]) []
     = [''NaN a'', ''NaN b'']
   \<and> processOl exact_doubles
       (Element ''ol'' []
          [Element ''li'' [(''value'', ''abc'')] [Text ''a''], Element ''li'' [] [Text ''b'']]) []
     = [''NaN a'', ''NaN b'']
   \<and> processOl exact_doubles
       (Element ''ol'' [] [Element ''li'' [] [Text ''a''], Element ''li'' [] [Text ''b'']]) []
     = [''1 a'', ''2 b'']"
  by code_simp

end
